theory Spec2Isabelle
  imports Complex_Main
begin

section \<open>Data model\<close>

text \<open>
  The program is \<^verbatim>\<open>policy_iteration.py\<close>: \<^verbatim>\<open>policy_eval\<close> (iterative evaluation of a
  fixed policy) and \<^verbatim>\<open>policy_improvement\<close> (the outer evaluate/improve loop with its nested
  helper \<^verbatim>\<open>one_step_lookahead\<close>).

  Numbers: the arrays of the program hold 64-bit floats. They are modelled as \<open>real\<close>, so
  rounding, infinities and NaN are not part of the model; every statement below is about the
  arithmetic the program writes down, carried out exactly.

  Exceptions are values: a computation returns \<open>error + 'a\<close> (\<open>Inl\<close> is the exception raised).
  The two \<^verbatim>\<open>while True\<close> loops may run forever, so they return an \<open>option\<close> around that:
  \<open>None\<close> is a loop that never leaves.
\<close>

datatype error = IndexError | KeyError | ValueError

text \<open>A transition tuple \<^verbatim>\<open>(prob, next_state, reward, done)\<close>.\<close>

type_synonym transition = "real \<times> int \<times> real \<times> bool"

text \<open>
  The environment object: \<^verbatim>\<open>env.nS\<close>, \<^verbatim>\<open>env.nA\<close> and the nested dictionary \<^verbatim>\<open>env.P\<close>, where
  \<^verbatim>\<open>env.P[s][a]\<close> is a list of transition tuples. A missing key raises \<^verbatim>\<open>KeyError\<close>.
\<close>

record env =
  nS :: nat
  nA :: nat
  P :: "nat \<Rightarrow> (nat \<Rightarrow> transition list option) option"

definition lookup_P :: "env \<Rightarrow> nat \<Rightarrow> nat \<Rightarrow> error + transition list" where
  "lookup_P e s a =
     (case P e s of
        None \<Rightarrow> Inl KeyError
      | Some row \<Rightarrow> (case row a of None \<Rightarrow> Inl KeyError | Some ts \<Rightarrow> Inr ts))"

subsection \<open>The numpy operations the program uses\<close>

text \<open>
  \<^verbatim>\<open>V[i]\<close> on a one-dimensional array with a Python integer: an index in \<open>[-n, 0)\<close> counts
  from the end, one outside \<open>[-n, n)\<close> raises \<^verbatim>\<open>IndexError\<close>.
\<close>

definition np_index :: "real list \<Rightarrow> int \<Rightarrow> error + real" where
  "np_index xs i =
     (let n = int (length xs) in
      if 0 \<le> i \<and> i < n then Inr (xs ! nat i)
      else if - n \<le> i \<and> i < 0 then Inr (xs ! nat (n + i))
      else Inl IndexError)"

text \<open>
  \<^verbatim>\<open>np.argmax\<close>: the index of the first occurrence of the maximum; \<^verbatim>\<open>ValueError\<close> on an
  empty array. \<open>argmax_from b m i xs\<close> scans \<open>xs\<close> (whose first element has index \<open>i\<close>)
  with the best index \<open>b\<close> and best value \<open>m\<close> found so far.
\<close>

fun argmax_from :: "nat \<Rightarrow> real \<Rightarrow> nat \<Rightarrow> real list \<Rightarrow> nat" where
  "argmax_from b m i [] = b"
| "argmax_from b m i (x # xs) =
     (if m < x then argmax_from i x (Suc i) xs else argmax_from b m (Suc i) xs)"

definition np_argmax :: "real list \<Rightarrow> error + nat" where
  "np_argmax xs = (case xs of [] \<Rightarrow> Inl ValueError | x # rest \<Rightarrow> Inr (argmax_from 0 x 1 rest))"

text \<open>\<^verbatim>\<open>np.eye(n)[k]\<close>: row \<open>k\<close> of the identity matrix.\<close>

definition np_eye_row :: "nat \<Rightarrow> nat \<Rightarrow> error + real list" where
  "np_eye_row n k =
     (if k < n then Inr (map (\<lambda>j. if j = k then 1 else 0) [0..<n]) else Inl IndexError)"

section \<open>policy\_eval\<close>

text \<open>
  The innermost loop, over the transition tuples of \<^verbatim>\<open>env.P[s][a]\<close>:
  \<^verbatim>\<open>v += action_prob * prob * (reward + discount_factor * V[next_state])\<close>.
\<close>

fun eval_outcomes :: "real \<Rightarrow> real \<Rightarrow> real list \<Rightarrow> real \<Rightarrow> transition list \<Rightarrow> error + real" where
  "eval_outcomes action_prob discount_factor V v [] = Inr v"
| "eval_outcomes action_prob discount_factor V v ((prob, next_state, reward, done) # ts) =
     (case np_index V next_state of
        Inl e \<Rightarrow> Inl e
      | Inr x \<Rightarrow>
          eval_outcomes action_prob discount_factor V
            (v + action_prob * prob * (reward + discount_factor * x)) ts)"

text \<open>The loop \<^verbatim>\<open>for a, action_prob in enumerate(policy[s])\<close>.\<close>

fun eval_actions :: "env \<Rightarrow> real \<Rightarrow> real list \<Rightarrow> nat \<Rightarrow> real \<Rightarrow> (nat \<times> real) list \<Rightarrow> error + real" where
  "eval_actions e discount_factor V s v [] = Inr v"
| "eval_actions e discount_factor V s v ((a, action_prob) # rest) =
     (case lookup_P e s a of
        Inl err \<Rightarrow> Inl err
      | Inr ts \<Rightarrow>
          (case eval_outcomes action_prob discount_factor V v ts of
             Inl err \<Rightarrow> Inl err
           | Inr v' \<Rightarrow> eval_actions e discount_factor V s v' rest))"

text \<open>
  The objects \<^verbatim>\<open>policy_eval\<close> can reach: its two arguments \<^verbatim>\<open>policy\<close> and \<^verbatim>\<open>env\<close>, which the
  caller passes by reference, its array \<^verbatim>\<open>V\<close> and the number \<^verbatim>\<open>delta\<close>. The name \<^verbatim>\<open>old_v\<close>
  is bound by \<^verbatim>\<open>old_v = V\<close> to the very array \<^verbatim>\<open>V\<close> names (no copy is made) and is never read,
  so it has no field of its own.
\<close>

record eval_frame =
  f_policy :: "real list list"
  f_env :: env
  f_V :: "real list"
  f_delta :: real

text \<open>
  The loop \<^verbatim>\<open>for s in range(env.nS)\<close>: the full backup of state \<open>s\<close> reads the array \<^verbatim>\<open>V\<close> as it
  is at that moment, \<^verbatim>\<open>delta\<close> takes the change into account and \<^verbatim>\<open>V[s] = v\<close> writes into the
  same array.
\<close>

fun sweep :: "real \<Rightarrow> eval_frame \<Rightarrow> nat list \<Rightarrow> error + eval_frame" where
  "sweep discount_factor fr [] = Inr fr"
| "sweep discount_factor fr (s # ss) =
     (if s < length (f_policy fr) then
        (case eval_actions (f_env fr) discount_factor (f_V fr) s 0
                (enumerate 0 (f_policy fr ! s)) of
           Inl err \<Rightarrow> Inl err
         | Inr v \<Rightarrow>
             (if s < length (f_V fr) then
                sweep discount_factor
                  (fr\<lparr>f_delta := max (f_delta fr) \<bar>v - f_V fr ! s\<bar>,
                      f_V := (f_V fr)[s := v]\<rparr>) ss
              else Inl IndexError))
      else Inl IndexError)"

text \<open>
  One pass of the body of \<^verbatim>\<open>while True\<close>: \<^verbatim>\<open>delta = 0\<close>, then the loop over the states.
\<close>

definition sweep_once :: "real \<Rightarrow> eval_frame \<Rightarrow> error + eval_frame" where
  "sweep_once discount_factor fr =
     sweep discount_factor (fr\<lparr>f_delta := 0\<rparr>) [0..<nS (f_env fr)]"

partial_function (option) eval_loop :: "real \<Rightarrow> real \<Rightarrow> eval_frame \<Rightarrow> (error + eval_frame) option" where
  "eval_loop discount_factor theta fr =
     (case sweep_once discount_factor fr of
        Inl err \<Rightarrow> Some (Inl err)
      | Inr fr' \<Rightarrow>
          (if f_delta fr' < theta then Some (Inr fr')
           else eval_loop discount_factor theta fr'))"

text \<open>
  \<^verbatim>\<open>policy_eval(policy, env, discount_factor, theta)\<close>. The result is the frame when the
  function returns: \<open>f_V\<close> is the array returned (\<^verbatim>\<open>np.array(V)\<close>), \<open>f_policy\<close> and \<open>f_env\<close> are
  the caller's objects as the call leaves them.
\<close>

declare eval_loop.simps [code]

definition policy_eval :: "real list list \<Rightarrow> env \<Rightarrow> real \<Rightarrow> real \<Rightarrow> (error + eval_frame) option" where
  "policy_eval policy e discount_factor theta =
     eval_loop discount_factor theta
       \<lparr>f_policy = policy, f_env = e, f_V = replicate (nS e) 0, f_delta = 0\<rparr>"

section \<open>policy\_improvement\<close>

text \<open>
  \<^verbatim>\<open>one_step_lookahead(state, V)\<close>; \<^verbatim>\<open>env\<close> and \<^verbatim>\<open>discount_factor\<close> are the variables of the
  enclosing call, which the closure captures.
\<close>

fun lookahead_outcomes :: "real \<Rightarrow> real list \<Rightarrow> real \<Rightarrow> transition list \<Rightarrow> error + real" where
  "lookahead_outcomes discount_factor V x [] = Inr x"
| "lookahead_outcomes discount_factor V x ((prob, next_state, reward, done) # ts) =
     (case np_index V next_state of
        Inl e \<Rightarrow> Inl e
      | Inr y \<Rightarrow> lookahead_outcomes discount_factor V (x + prob * (reward + discount_factor * y)) ts)"

fun lookahead_actions :: "env \<Rightarrow> real \<Rightarrow> nat \<Rightarrow> real list \<Rightarrow> real list \<Rightarrow> nat list \<Rightarrow> error + real list" where
  "lookahead_actions e discount_factor state V A [] = Inr A"
| "lookahead_actions e discount_factor state V A (a # as) =
     (case lookup_P e state a of
        Inl err \<Rightarrow> Inl err
      | Inr ts \<Rightarrow>
          (if a < length A then
             (case lookahead_outcomes discount_factor V (A ! a) ts of
                Inl err \<Rightarrow> Inl err
              | Inr x \<Rightarrow> lookahead_actions e discount_factor state V (A[a := x]) as)
           else Inl IndexError))"

definition one_step_lookahead :: "env \<Rightarrow> real \<Rightarrow> nat \<Rightarrow> real list \<Rightarrow> error + real list" where
  "one_step_lookahead e discount_factor state V =
     lookahead_actions e discount_factor state V (replicate (nA e) 0) [0..<nA e]"

text \<open>
  The objects one round of the outer loop works on: the array \<^verbatim>\<open>policy\<close> (whose rows the
  round overwrites in place), \<^verbatim>\<open>env\<close>, the array \<^verbatim>\<open>V\<close> that \<^verbatim>\<open>policy_eval\<close> returned and the
  flag \<^verbatim>\<open>policy_stable\<close>.
\<close>

record improve_frame =
  g_policy :: "real list list"
  g_env :: env
  g_V :: "real list"
  g_policy_stable :: bool

text \<open>The loop \<^verbatim>\<open>for s in range(env.nS)\<close> of the improvement step.\<close>

fun improve_states :: "real \<Rightarrow> improve_frame \<Rightarrow> nat list \<Rightarrow> error + improve_frame" where
  "improve_states discount_factor st [] = Inr st"
| "improve_states discount_factor st (s # ss) =
     (if s < length (g_policy st) then
        (case np_argmax (g_policy st ! s) of
           Inl err \<Rightarrow> Inl err
         | Inr old_action \<Rightarrow>
             (case one_step_lookahead (g_env st) discount_factor s (g_V st) of
                Inl err \<Rightarrow> Inl err
              | Inr action_values \<Rightarrow>
                  (case np_argmax action_values of
                     Inl err \<Rightarrow> Inl err
                   | Inr best_a \<Rightarrow>
                       (case np_eye_row (nA (g_env st)) best_a of
                          Inl err \<Rightarrow> Inl err
                        | Inr row \<Rightarrow>
                            improve_states discount_factor
                              (st\<lparr>g_policy_stable :=
                                     (if old_action \<noteq> best_a then False
                                      else g_policy_stable st),
                                   g_policy := (g_policy st)[s := row]\<rparr>) ss))))
      else Inl IndexError)"

text \<open>
  One round of \<^verbatim>\<open>while True\<close>: \<^verbatim>\<open>V = policy_eval(policy, env)\<close>, which leaves
  \<^verbatim>\<open>discount_factor\<close> and \<^verbatim>\<open>theta\<close> at their defaults \<open>1.0\<close> and \<open>0.00001\<close>, then
  \<^verbatim>\<open>policy_stable = True\<close> and the loop over the states. The call passes \<^verbatim>\<open>policy\<close> and \<^verbatim>\<open>env\<close>
  by reference, so the round goes on with these objects as the call left them.
\<close>

definition improve_round :: "real \<Rightarrow> real list list \<Rightarrow> env \<Rightarrow> (error + improve_frame) option" where
  "improve_round discount_factor policy e =
     (case policy_eval policy e 1 (1 / 100000) of
        None \<Rightarrow> None
      | Some (Inl err) \<Rightarrow> Some (Inl err)
      | Some (Inr fr) \<Rightarrow>
          Some (improve_states discount_factor
                  \<lparr>g_policy = f_policy fr, g_env = f_env fr, g_V = f_V fr,
                   g_policy_stable = True\<rparr>
                  [0..<nS (f_env fr)]))"

partial_function (option) improvement_loop :: "real \<Rightarrow> real list list \<Rightarrow> env \<Rightarrow> (error + improve_frame) option" where
  "improvement_loop discount_factor policy e =
     (case improve_round discount_factor policy e of
        None \<Rightarrow> None
      | Some (Inl err) \<Rightarrow> Some (Inl err)
      | Some (Inr st) \<Rightarrow>
          (if g_policy_stable st then Some (Inr st)
           else improvement_loop discount_factor (g_policy st) (g_env st)))"

declare improvement_loop.simps [code]

text \<open>
  \<^verbatim>\<open>policy_improvement(env, policy_eval_fn, discount_factor)\<close>. The body never mentions
  \<^verbatim>\<open>policy_eval_fn\<close>. The start is \<^verbatim>\<open>np.ones([env.nS, env.nA]) / env.nA\<close>; the tuple returned
  is \<open>(g_policy st, g_V st)\<close> of the final frame.
\<close>

type_synonym eval_fn = "real list list \<Rightarrow> env \<Rightarrow> real \<Rightarrow> real \<Rightarrow> (error + eval_frame) option"

definition policy_improvement :: "env \<Rightarrow> eval_fn \<Rightarrow> real \<Rightarrow> (error + improve_frame) option" where
  "policy_improvement e policy_eval_fn discount_factor =
     improvement_loop discount_factor
       (replicate (nS e) (replicate (nA e) (1 / real (nA e)))) e"


section \<open>Notions used in the statements\<close>

text \<open>The frame after \<open>k\<close> passes of the body of the loop of \<^verbatim>\<open>policy_eval\<close>.\<close>

fun sweeps :: "nat \<Rightarrow> real \<Rightarrow> eval_frame \<Rightarrow> error + eval_frame" where
  "sweeps 0 discount_factor fr = Inr fr"
| "sweeps (Suc k) discount_factor fr =
     (case sweep_once discount_factor fr of
        Inl err \<Rightarrow> Inl err
      | Inr fr' \<Rightarrow> sweeps k discount_factor fr')"

text \<open>
  Pass \<open>k + 1\<close> is the first whose delta is below theta, and \<open>fr'\<close> is the frame it leaves.
\<close>

definition leaves_after :: "nat \<Rightarrow> real \<Rightarrow> real \<Rightarrow> eval_frame \<Rightarrow> eval_frame \<Rightarrow> bool" where
  "leaves_after k g th fr fr' \<longleftrightarrow>
     sweeps (Suc k) g fr = Inr fr' \<and> f_delta fr' < th \<and>
     (\<forall>j<k. \<exists>frj. sweeps (Suc j) g fr = Inr frj \<and> \<not> f_delta frj < th)"

text \<open>What the caller receives: the array of \<^verbatim>\<open>policy_eval\<close>, the tuple of \<^verbatim>\<open>policy_improvement\<close>.\<close>

definition value_of :: "(error + eval_frame) option \<Rightarrow> (error + real list) option" where
  "value_of r = map_option (map_sum id f_V) r"

definition returned :: "(error + improve_frame) option \<Rightarrow> (error + real list list \<times> real list) option" where
  "returned r = map_option (map_sum id (\<lambda>st. (g_policy st, g_V st))) r"

subsection \<open>Small environments\<close>

text \<open>
  Three states and one action: state 0 is absorbing with reward 0, state 1 moves to state 0
  and state 2 moves to state 1, each at reward \<open>-1\<close>.
\<close>

definition chain3 :: env where
  "chain3 = \<lparr>nS = 3, nA = 1,
     P = (\<lambda>s. if s = 0 then Some (\<lambda>a. if a = 0 then Some [(1, 0, 0, True)] else None)
          else if s = 1 then Some (\<lambda>a. if a = 0 then Some [(1, 0, -1, True)] else None)
          else if s = 2 then Some (\<lambda>a. if a = 0 then Some [(1, 1, -1, False)] else None)
          else None)\<rparr>"

text \<open>
  Two states and two actions: state 0 is absorbing with reward 0; from state 1 both actions
  lead to state 0, action 0 at reward 0 and action 1 at reward \<open>-1\<close>.
\<close>

definition two_way :: env where
  "two_way = \<lparr>nS = 2, nA = 2,
     P = (\<lambda>s. if s = 0 then Some (\<lambda>a. if a < 2 then Some [(1, 0, 0, True)] else None)
          else if s = 1 then
            Some (\<lambda>a. if a = 0 then Some [(1, 0, 0, True)]
                       else if a = 1 then Some [(1, 0, -1, True)] else None)
          else None)\<rparr>"


text \<open>
  Two states and one action, no terminal state: state 0 loops on itself at reward 1 and
  state 1 moves to state 0 at reward 0.
\<close>

definition loop2 :: env where
  "loop2 = \<lparr>nS = 2, nA = 1,
     P = (\<lambda>s. if s = 0 then Some (\<lambda>a. if a = 0 then Some [(1, 0, 1, False)] else None)
          else if s = 1 then Some (\<lambda>a. if a = 0 then Some [(1, 0, 0, False)] else None)
          else None)\<rparr>"

text \<open>One state and one action, a self-loop at reward 0 that ends the episode.\<close>

definition single :: env where
  "single = \<lparr>nS = 1, nA = 1,
     P = (\<lambda>s. if s = 0 then Some (\<lambda>a. if a = 0 then Some [(1, 0, 0, True)] else None)
          else None)\<rparr>"

subsection \<open>The quantities the specification names\<close>

text \<open>
  An environment is well formed when every state below \<open>nS\<close> and action below \<open>nA\<close> has a
  list of transitions and every next state is an index in \<open>[0, nS)\<close>.
\<close>

definition well_formed :: "env \<Rightarrow> bool" where
  "well_formed e \<longleftrightarrow>
     (\<forall>s<nS e. \<forall>a<nA e. \<exists>ts. lookup_P e s a = Inr ts \<and>
        (\<forall>(p, s', r, d)\<in>set ts. 0 \<le> s' \<and> s' < int (nS e)))"

text \<open>The interface \<open>transitions(state, action)\<close> of the MDP description.\<close>

definition transitions :: "env \<Rightarrow> nat \<Rightarrow> nat \<Rightarrow> transition list" where
  "transitions e s a = (case lookup_P e s a of Inl err \<Rightarrow> [] | Inr ts \<Rightarrow> ts)"

text \<open>
  The action value \<open>A(a) = \<Sum> p * (r + discount_factor * V[s'])\<close>, the sum over the outcomes
  \<open>(p, s', r, done)\<close> of the action.
\<close>

definition expected_return :: "real \<Rightarrow> real list \<Rightarrow> transition list \<Rightarrow> real" where
  "expected_return discount_factor V ts =
     (\<Sum>(p, s', r, d)\<leftarrow>ts. p * (r + discount_factor * V ! nat s'))"

definition action_value :: "env \<Rightarrow> real \<Rightarrow> real list \<Rightarrow> nat \<Rightarrow> nat \<Rightarrow> real" where
  "action_value e discount_factor V s a = expected_return discount_factor V (transitions e s a)"

text \<open>
  The row the improvement step writes for state \<open>s\<close>: row \<^verbatim>\<open>best_a\<close> of the identity matrix,
  with \<^verbatim>\<open>best_a\<close> the \<^verbatim>\<open>np.argmax\<close> of \<^verbatim>\<open>one_step_lookahead(s, V)\<close>.
\<close>

definition greedy_row :: "env \<Rightarrow> real \<Rightarrow> real list \<Rightarrow> nat \<Rightarrow> real list \<Rightarrow> bool" where
  "greedy_row e discount_factor V s row \<longleftrightarrow>
     (\<exists>A a. one_step_lookahead e discount_factor s V = Inr A \<and> np_argmax A = Inr a \<and>
            np_eye_row (nA e) a = Inr row)"

subsection \<open>Reference evaluators\<close>

text \<open>A policy array of shape \<open>[nS, nA]\<close>.\<close>

definition policy_shape :: "real list list \<Rightarrow> env \<Rightarrow> bool" where
  "policy_shape policy e \<longleftrightarrow> length policy = nS e \<and> (\<forall>row\<in>set policy. length row = nA e)"

text \<open>
  The full backup of the specification,
  \<open>v(s) = \<Sum>\<^sub>a policy[s][a] * \<Sum> p * (r + discount_factor * V[s'])\<close>, read off a given array.
\<close>

definition full_backup :: "real list list \<Rightarrow> env \<Rightarrow> real \<Rightarrow> real list \<Rightarrow> nat \<Rightarrow> real" where
  "full_backup policy e discount_factor V s =
     (\<Sum>a\<leftarrow>[0..<length (policy ! s)].
        policy ! s ! a * expected_return discount_factor V (transitions e s a))"

text \<open>The largest change over the states, \<open>max\<^sub>s \<bar>V_new[s] - V_old[s]\<bar>\<close> (0 without states).\<close>

definition max_change :: "real list \<Rightarrow> real list \<Rightarrow> real" where
  "max_change V_new V_old = fold max (map2 (\<lambda>x y. \<bar>x - y\<bar>) V_new V_old) 0"

text \<open>
  The synchronous (Jacobi) evaluator as the specification words it: every state of a sweep
  is backed up from the array of the previous sweep; start from zeros, stop after the first
  sweep whose largest change is below theta.
\<close>

definition jacobi_sweep :: "real list list \<Rightarrow> env \<Rightarrow> real \<Rightarrow> real list \<Rightarrow> real list" where
  "jacobi_sweep policy e discount_factor V_prev =
     map (full_backup policy e discount_factor V_prev) [0..<nS e]"

partial_function (option) jacobi_loop :: "real list list \<Rightarrow> env \<Rightarrow> real \<Rightarrow> real \<Rightarrow> real list \<Rightarrow> real list option" where
  "jacobi_loop policy e discount_factor theta V_prev =
     (let V_new = jacobi_sweep policy e discount_factor V_prev in
      if max_change V_new V_prev < theta then Some V_new
      else jacobi_loop policy e discount_factor theta V_new)"

declare jacobi_loop.simps [code]

definition jacobi_evaluate :: "real list list \<Rightarrow> env \<Rightarrow> real \<Rightarrow> real \<Rightarrow> real list option" where
  "jacobi_evaluate policy e discount_factor theta =
     jacobi_loop policy e discount_factor theta (replicate (nS e) 0)"

text \<open>
  The in-place (Gauss-Seidel) evaluator: the states are backed up in the order
  \<open>0, 1, \<dots>, nS - 1\<close>, each from the array as the states before it have left it.
\<close>

fun inplace_sweep :: "real list list \<Rightarrow> env \<Rightarrow> real \<Rightarrow> real list \<Rightarrow> nat list \<Rightarrow> real list" where
  "inplace_sweep policy e discount_factor V [] = V"
| "inplace_sweep policy e discount_factor V (s # ss) =
     inplace_sweep policy e discount_factor (V[s := full_backup policy e discount_factor V s]) ss"

partial_function (option) inplace_loop :: "real list list \<Rightarrow> env \<Rightarrow> real \<Rightarrow> real \<Rightarrow> real list \<Rightarrow> real list option" where
  "inplace_loop policy e discount_factor theta V_prev =
     (let V_new = inplace_sweep policy e discount_factor V_prev [0..<nS e] in
      if max_change V_new V_prev < theta then Some V_new
      else inplace_loop policy e discount_factor theta V_new)"

declare inplace_loop.simps [code]

definition inplace_evaluate :: "real list list \<Rightarrow> env \<Rightarrow> real \<Rightarrow> real \<Rightarrow> real list option" where
  "inplace_evaluate policy e discount_factor theta =
     inplace_loop policy e discount_factor theta (replicate (nS e) 0)"


subsection \<open>The grid environment\<close>

text \<open>
  Modelled from the spec: the geometry of the grid environment (\<^verbatim>\<open>GridworldEnv\<close> of
  \<^verbatim>\<open>lib.envs.gridworld\<close>, which is not among the sources). The states are numbered row by
  row, \<open>s = 4 * row + column\<close>; the actions are \<open>0 = up, 1 = right, 2 = down, 3 = left\<close>, the
  encoding the program prints; a move that would leave the grid stays where it is.
\<close>

definition move :: "nat \<Rightarrow> nat \<Rightarrow> nat" where
  "move s a =
     (if a = 0 then (if s < 4 then s else s - 4)
      else if a = 1 then (if s mod 4 = 3 then s else s + 1)
      else if a = 2 then (if 12 \<le> s then s else s + 4)
      else (if s mod 4 = 0 then s else s - 1))"

text \<open>
  Modelled from the spec: the environment object itself, a 4x4 deterministic absorbing grid
  with reward \<open>-1\<close> per move and 0 in a terminal state; \<open>terminal\<close> says which states are
  terminal. A terminal state has, for every action, the single transition to itself with
  reward 0; any other state has the single transition to the neighbouring cell, reward \<open>-1\<close>.
\<close>

definition gridworld :: "(nat \<Rightarrow> bool) \<Rightarrow> env" where
  "gridworld terminal =
     \<lparr>nS = 16, nA = 4,
      P = (\<lambda>s. if s < 16 then
                 Some (\<lambda>a. if a < 4 then
                              Some (if terminal s then [(1, int s, 0, True)]
                                    else [(1, int (move s a), - 1, terminal (move s a))])
                            else None)
               else None)\<rparr>"

text \<open>The grid as the specification words it: state 0 is the single terminal corner.\<close>

definition one_corner :: "nat \<Rightarrow> bool" where
  "one_corner s \<longleftrightarrow> s = 0"

text \<open>The grid with the two opposite corners 0 and 15 terminal.\<close>

definition two_corners :: "nat \<Rightarrow> bool" where
  "two_corners s \<longleftrightarrow> s = 0 \<or> s = 15"

text \<open>The array \<^verbatim>\<open>expected_v\<close> of the program.\<close>

definition expected_v :: "real list" where
  "expected_v = [0, - 1, - 2, - 3, - 1, - 2, - 3, - 2, - 2, - 3, - 2, - 1, - 3, - 2, - 1, 0]"

text \<open>
  The comparison of \<^verbatim>\<open>np.testing.assert_array_almost_equal(v, expected_v, decimal=2)\<close>: the
  arrays have the same length and \<open>\<bar>desired - actual\<bar> < 1.5 * 10\<^sup>-\<^sup>2\<close> holds entry by entry.
\<close>

definition close_enough :: "real \<Rightarrow> real \<Rightarrow> bool" where
  "close_enough actual desired \<longleftrightarrow> \<bar>desired - actual\<bar> < 3 / 200"

definition almost_equal :: "real list \<Rightarrow> real list \<Rightarrow> bool" where
  "almost_equal actual desired = list_all2 close_enough actual desired"

text \<open>The outer loop returned a tuple whose value array passes that comparison.\<close>

definition solve_matches :: "(error + real list list \<times> real list) option \<Rightarrow> real list \<Rightarrow> bool" where
  "solve_matches r desired =
     (case r of Some (Inr (policy, v)) \<Rightarrow> almost_equal v desired | _ \<Rightarrow> False)"

text \<open>A policy array of the right shape whose rows are probability distributions.\<close>

definition stochastic :: "env \<Rightarrow> real list list \<Rightarrow> bool" where
  "stochastic e policy \<longleftrightarrow>
     policy_shape policy e \<and> (\<forall>row\<in>set policy. (\<forall>x\<in>set row. 0 \<le> x) \<and> sum_list row = 1)"

text \<open>Properties of value arrays over the 16 states that the sweeps keep.\<close>

definition nonpositive :: "real list \<Rightarrow> bool" where
  "nonpositive V \<longleftrightarrow> length V = 16 \<and> (\<forall>t<16. V ! t \<le> 0)"

text \<open>Row \<open>a\<close> of the 4x4 identity matrix, and the policies whose every row is such a row and
  moves one step closer to a terminal corner, measured by \<open>expected_v\<close>.\<close>

definition unit_row :: "nat \<Rightarrow> real list" where
  "unit_row a = map (\<lambda>j. if j = a then 1 else 0) [0..<4]"

definition descending :: "real list list \<Rightarrow> bool" where
  "descending p \<longleftrightarrow>
     length p = 16 \<and>
     (\<forall>s<16. \<exists>a<4. p ! s = unit_row a \<and>
        (\<not> two_corners s \<longrightarrow> expected_v ! move s a = expected_v ! s + 1))"

definition exact_upto :: "nat \<Rightarrow> real list \<Rightarrow> bool" where
  "exact_upto k V \<longleftrightarrow>
     length V = 16 \<and> (\<forall>s<16. - real k \<le> expected_v ! s \<longrightarrow> V ! s = expected_v ! s)"

definition integral :: "real list \<Rightarrow> bool" where
  "integral V \<longleftrightarrow> length V = 16 \<and> (\<forall>s<16. V ! s \<in> \<int>)"

definition anchored :: "real list \<Rightarrow> bool" where
  "anchored V \<longleftrightarrow> integral V \<and> (\<forall>s<16. two_corners s \<longrightarrow> V ! s = 0)"

text \<open>
  The value of the uniform policy on the grid with two terminal corners, and the arrays
  between it and its multiple \<open>(1 - M)\<close> (all entries are non-positive).
\<close>

definition v_random :: "real list" where
  "v_random = [0, - 14, - 20, - 22, - 14, - 18, - 20, - 20, - 20, - 20, - 18, - 14, - 22, - 20, - 14, 0]"

definition near :: "real \<Rightarrow> real list \<Rightarrow> bool" where
  "near M V \<longleftrightarrow>
     length V = 16 \<and> (\<forall>s<16. v_random ! s \<le> V ! s \<and> V ! s \<le> v_random ! s - M * v_random ! s)"

section \<open>The arguments and the shape of the arrays are left alone\<close>

lemma value_of_Inr:
  assumes "value_of r = Some (Inr v)"
  obtains fr where "r = Some (Inr fr)" and "f_V fr = v"
proof (cases r)
  case None
  with assms show ?thesis by (simp add: value_of_def)
next
  case (Some x)
  with assms that show ?thesis by (cases x) (simp_all add: value_of_def)
qed

lemma returned_Inr:
  assumes "returned r = Some (Inr (p, v))"
  obtains st where "r = Some (Inr st)" and "g_policy st = p" and "g_V st = v"
proof (cases r)
  case None
  with assms show ?thesis by (simp add: returned_def)
next
  case (Some x)
  with assms that show ?thesis by (cases x) (simp_all add: returned_def)
qed

lemma sweep_frame:
  "sweep g fr ss = Inr fr' \<Longrightarrow>
     f_policy fr' = f_policy fr \<and> f_env fr' = f_env fr \<and> length (f_V fr') = length (f_V fr)"
proof (induction ss arbitrary: fr)
  case Nil
  then show ?case by simp
next
  case (Cons s ss)
  from Cons.prems obtain v where
    step: "sweep g (fr\<lparr>f_delta := max (f_delta fr) \<bar>v - f_V fr ! s\<bar>, f_V := (f_V fr)[s := v]\<rparr>) ss = Inr fr'"
    by (auto split: if_splits sum.splits)
  from Cons.IH [OF step] show ?case by simp
qed

lemma sweep_once_frame:
  "sweep_once g fr = Inr fr' \<Longrightarrow>
     f_policy fr' = f_policy fr \<and> f_env fr' = f_env fr \<and> length (f_V fr') = length (f_V fr)"
  unfolding sweep_once_def by (drule sweep_frame) simp

lemma sweeps_frame:
  "sweeps k g fr = Inr fr' \<Longrightarrow>
     f_policy fr' = f_policy fr \<and> f_env fr' = f_env fr \<and> length (f_V fr') = length (f_V fr)"
proof (induction k arbitrary: fr)
  case 0
  then show ?case by simp
next
  case (Suc k)
  from Suc.prems obtain fr1 where one: "sweep_once g fr = Inr fr1" and rest: "sweeps k g fr1 = Inr fr'"
    by (auto split: sum.splits)
  from Suc.IH [OF rest] sweep_once_frame [OF one] show ?case by simp
qed

lemma sweeps_Suc_last:
  "sweeps (Suc k) g fr = (case sweeps k g fr of Inl err \<Rightarrow> Inl err | Inr fr' \<Rightarrow> sweep_once g fr')"
proof (induction k arbitrary: fr)
  case 0
  show ?case by (simp split: sum.splits)
next
  case (Suc k)
  show ?case
  proof (cases "sweep_once g fr")
    case (Inl err)
    then show ?thesis by simp
  next
    case (Inr fr1)
    have "sweeps (Suc (Suc k)) g fr = sweeps (Suc k) g fr1" using Inr by simp
    also have "\<dots> = (case sweeps k g fr1 of Inl err \<Rightarrow> Inl err | Inr fr' \<Rightarrow> sweep_once g fr')"
      by (rule Suc.IH)
    also have "sweeps k g fr1 = sweeps (Suc k) g fr" using Inr by simp
    finally show ?thesis .
  qed
qed

lemma leaves_after_imp_loop:
  "leaves_after k g th fr fr' \<Longrightarrow> eval_loop g th fr = Some (Inr fr')"
proof (induction k arbitrary: fr)
  case 0
  then have "sweep_once g fr = Inr fr'" "f_delta fr' < th"
    by (auto simp: leaves_after_def split: sum.splits)
  then show ?case by (subst eval_loop.simps) simp
next
  case (Suc k)
  from Suc.prems have all: "\<forall>j<Suc k. \<exists>frj. sweeps (Suc j) g fr = Inr frj \<and> \<not> f_delta frj < th"
    and last: "sweeps (Suc (Suc k)) g fr = Inr fr'" and lt: "f_delta fr' < th"
    by (auto simp: leaves_after_def)
  from all have "\<exists>frj. sweeps (Suc 0) g fr = Inr frj \<and> \<not> f_delta frj < th" by blast
  then obtain fr1 where one: "sweep_once g fr = Inr fr1" and ge: "\<not> f_delta fr1 < th"
    by (auto split: sum.splits)
  have "leaves_after k g th fr1 fr'"
    unfolding leaves_after_def
  proof (intro conjI allI impI)
    show "sweeps (Suc k) g fr1 = Inr fr'" using last one by simp
    show "f_delta fr' < th" by (rule lt)
    fix j assume "j < k"
    then have "Suc j < Suc k" by simp
    with all obtain frj where "sweeps (Suc (Suc j)) g fr = Inr frj" "\<not> f_delta frj < th" by blast
    then show "\<exists>frj. sweeps (Suc j) g fr1 = Inr frj \<and> \<not> f_delta frj < th" using one by simp
  qed
  from Suc.IH [OF this] have "eval_loop g th fr1 = Some (Inr fr')" .
  then show ?case using one ge by (subst eval_loop.simps) simp
qed

lemma loop_imp_leaves_after:
  assumes run: "eval_loop g th fr = Some r"
  shows "\<forall>fr'. r = Inr fr' \<longrightarrow> (\<exists>k. leaves_after k g th fr fr')"
proof (rule eval_loop.raw_induct [where P = "\<lambda>g th fr r. \<forall>fr'. r = Inr fr' \<longrightarrow> (\<exists>k. leaves_after k g th fr fr')", OF _ run])
  fix loop g0 th0 fr0 r0
  assume IH: "\<And>g th fr r. loop g th fr = Some r \<Longrightarrow> \<forall>fr'. r = Inr fr' \<longrightarrow> (\<exists>k. leaves_after k g th fr fr')"
    and body: "(case sweep_once g0 fr0 of Inl err \<Rightarrow> Some (Inl err)
          | Inr fr' \<Rightarrow> if f_delta fr' < th0 then Some (Inr fr') else loop g0 th0 fr') = Some r0"
  show "\<forall>fr'. r0 = Inr fr' \<longrightarrow> (\<exists>k. leaves_after k g0 th0 fr0 fr')"
  proof (intro allI impI)
    fix fr' assume r0: "r0 = Inr fr'"
    show "\<exists>k. leaves_after k g0 th0 fr0 fr'"
    proof (cases "sweep_once g0 fr0")
      case (Inl err)
      with body r0 show ?thesis by simp
    next
      case (Inr fr1)
      show ?thesis
      proof (cases "f_delta fr1 < th0")
        case True
        with body Inr r0 have "fr1 = fr'" by simp
        with Inr True have "leaves_after 0 g0 th0 fr0 fr'" by (simp add: leaves_after_def)
        then show ?thesis ..
      next
        case False
        with body Inr have "loop g0 th0 fr1 = Some r0" by simp
        from IH [OF this] r0 obtain k where k: "leaves_after k g0 th0 fr1 fr'" by blast
        have "leaves_after (Suc k) g0 th0 fr0 fr'"
          unfolding leaves_after_def
        proof (intro conjI allI impI)
          show "sweeps (Suc (Suc k)) g0 fr0 = Inr fr'" using k Inr by (simp add: leaves_after_def)
          show "f_delta fr' < th0" using k by (simp add: leaves_after_def)
          fix j assume j: "j < Suc k"
          show "\<exists>frj. sweeps (Suc j) g0 fr0 = Inr frj \<and> \<not> f_delta frj < th0"
          proof (cases j)
            case 0
            with Inr False show ?thesis by simp
          next
            case (Suc i)
            with j have "i < k" by simp
            with k obtain fri where "sweeps (Suc i) g0 fr1 = Inr fri" "\<not> f_delta fri < th0"
              unfolding leaves_after_def by blast
            with Suc Inr show ?thesis by simp
          qed
        qed
        then show ?thesis ..
      qed
    qed
  qed
qed

lemma eval_loop_returns_iff:
  "eval_loop g th fr = Some (Inr fr') \<longleftrightarrow> (\<exists>k. leaves_after k g th fr fr')"
  using leaves_after_imp_loop loop_imp_leaves_after by blast


lemma Max_insert_max:
  fixes a b :: real
  assumes "finite S"
  shows "Max (insert (max a b) S) = Max (insert a (insert b S))"
proof (cases "S = {}")
  case True
  then show ?thesis by simp
next
  case False
  with assms show ?thesis by (simp add: max.assoc)
qed

lemma sweep_delta:
  "sweep g fr ss = Inr fr' \<Longrightarrow> distinct ss \<Longrightarrow>
     f_delta fr' = Max (insert (f_delta fr) ((\<lambda>s. \<bar>f_V fr' ! s - f_V fr ! s\<bar>) ` set ss)) \<and>
     (\<forall>s. s \<notin> set ss \<longrightarrow> f_V fr' ! s = f_V fr ! s)"
proof (induction ss arbitrary: fr)
  case Nil
  then show ?case by simp
next
  case (Cons s ss)
  from Cons.prems obtain v where
    s: "s < length (f_V fr)" and
    step: "sweep g (fr\<lparr>f_delta := max (f_delta fr) \<bar>v - f_V fr ! s\<bar>, f_V := (f_V fr)[s := v]\<rparr>) ss = Inr fr'"
    by (auto split: if_splits sum.splits)
  from Cons.prems have ds: "distinct ss" and sn: "s \<notin> set ss" by simp_all
  note IH = Cons.IH [OF step ds]
  from IH sn s have vs: "f_V fr' ! s = v" by simp
  have img: "(\<lambda>t. \<bar>f_V fr' ! t - (f_V fr)[s := v] ! t\<bar>) ` set ss = (\<lambda>t. \<bar>f_V fr' ! t - f_V fr ! t\<bar>) ` set ss"
  proof (rule image_cong [OF refl])
    fix t assume "t \<in> set ss"
    with sn have "t \<noteq> s" by auto
    then show "\<bar>f_V fr' ! t - (f_V fr)[s := v] ! t\<bar> = \<bar>f_V fr' ! t - f_V fr ! t\<bar>" by simp
  qed
  have "f_delta fr' = Max (insert (max (f_delta fr) \<bar>v - f_V fr ! s\<bar>) ((\<lambda>t. \<bar>f_V fr' ! t - f_V fr ! t\<bar>) ` set ss))"
    using IH img by simp
  also have "\<dots> = Max (insert (f_delta fr) (insert \<bar>v - f_V fr ! s\<bar> ((\<lambda>t. \<bar>f_V fr' ! t - f_V fr ! t\<bar>) ` set ss)))"
    by (rule Max_insert_max) simp
  finally have d: "f_delta fr' = Max (insert (f_delta fr) ((\<lambda>t. \<bar>f_V fr' ! t - f_V fr ! t\<bar>) ` set (s # ss)))"
    using vs by simp
  have "\<forall>t. t \<notin> set (s # ss) \<longrightarrow> f_V fr' ! t = f_V fr ! t"
    using IH by auto
  with d show ?case by blast
qed

lemma sweep_once_delta:
  assumes "sweep_once g fr = Inr fr'"
  shows "f_delta fr' = Max (insert 0 ((\<lambda>s. \<bar>f_V fr' ! s - f_V fr ! s\<bar>) ` {..<nS (f_env fr)}))"
proof -
  from assms have "sweep g (fr\<lparr>f_delta := 0\<rparr>) [0..<nS (f_env fr)] = Inr fr'"
    by (simp add: sweep_once_def)
  from sweep_delta [OF this] show ?thesis by (simp add: lessThan_atLeast0)
qed

lemma policy_eval_frame:
  "policy_eval policy e g th = Some (Inr fr') \<Longrightarrow>
     f_policy fr' = policy \<and> f_env fr' = e \<and> length (f_V fr') = nS e"
proof -
  assume "policy_eval policy e g th = Some (Inr fr')"
  then obtain k where "leaves_after k g th \<lparr>f_policy = policy, f_env = e, f_V = replicate (nS e) 0, f_delta = 0\<rparr> fr'"
    unfolding policy_eval_def eval_loop_returns_iff by blast
  then have "sweeps (Suc k) g \<lparr>f_policy = policy, f_env = e, f_V = replicate (nS e) 0, f_delta = 0\<rparr> = Inr fr'"
    by (simp add: leaves_after_def)
  from sweeps_frame [OF this] show ?thesis by simp
qed

lemma map_sum_Inr:
  assumes "map_sum id f r = Inr v"
  obtains x where "r = Inr x" and "f x = v"
  using assms by (cases r) simp_all


section \<open>The stopping rule of policy\_eval\<close>

text \<open>
  Claim C4. \<^verbatim>\<open>policy_eval\<close> returns the frame \<open>fr'\<close> exactly when \<open>fr'\<close> is the frame left by a
  pass \<open>k + 1\<close> of the loop body such that: the delta of that pass, which is the maximum over
  the states \<open>s\<close> of \<open>\<bar>v(s) - V_old(s)\<bar>\<close> with \<open>V_old(s)\<close> the entry the pass overwrote (and 0
  when there is no state), is below theta; and every earlier pass ended with
  \<open>theta \<le> delta\<close>, so the loop went on each time. The array returned is the array of that
  last pass.
\<close>

theorem evaluate_stopping_rule:
  "policy_eval policy e discount_factor theta = Some (Inr fr') \<longleftrightarrow>
     (\<exists>k fr_prev.
        sweeps k discount_factor \<lparr>f_policy = policy, f_env = e, f_V = replicate (nS e) 0, f_delta = 0\<rparr>
          = Inr fr_prev \<and>
        sweep_once discount_factor fr_prev = Inr fr' \<and>
        f_delta fr' = Max (insert 0 ((\<lambda>s. \<bar>f_V fr' ! s - f_V fr_prev ! s\<bar>) ` {..<nS e})) \<and>
        f_delta fr' < theta \<and>
        (\<forall>j<k. \<exists>frj.
           sweeps (Suc j) discount_factor
             \<lparr>f_policy = policy, f_env = e, f_V = replicate (nS e) 0, f_delta = 0\<rparr> = Inr frj \<and>
           theta \<le> f_delta frj))"
  (is "?L \<longleftrightarrow> ?R")
proof
  let ?init = "\<lparr>f_policy = policy, f_env = e, f_V = replicate (nS e) 0, f_delta = 0\<rparr>"
  assume ?L
  then obtain k where k: "leaves_after k discount_factor theta ?init fr'"
    by (auto simp: policy_eval_def eval_loop_returns_iff)
  then have last: "sweeps (Suc k) discount_factor ?init = Inr fr'" by (simp add: leaves_after_def)
  then obtain fr_prev where prev: "sweeps k discount_factor ?init = Inr fr_prev"
    and one: "sweep_once discount_factor fr_prev = Inr fr'"
    unfolding sweeps_Suc_last by (auto split: sum.splits)
  from sweeps_frame [OF prev] have "f_env fr_prev = e" by simp
  with sweep_once_delta [OF one]
  have "f_delta fr' = Max (insert 0 ((\<lambda>s. \<bar>f_V fr' ! s - f_V fr_prev ! s\<bar>) ` {..<nS e}))" by simp
  with k prev one show ?R
    unfolding leaves_after_def by (intro exI [of _ k] exI [of _ fr_prev]) (simp add: not_less)
next
  let ?init = "\<lparr>f_policy = policy, f_env = e, f_V = replicate (nS e) 0, f_delta = 0\<rparr>"
  assume ?R
  then obtain k fr_prev where prev: "sweeps k discount_factor ?init = Inr fr_prev"
    and one: "sweep_once discount_factor fr_prev = Inr fr'"
    and lt: "f_delta fr' < theta"
    and all: "\<forall>j<k. \<exists>frj. sweeps (Suc j) discount_factor ?init = Inr frj \<and> theta \<le> f_delta frj"
    by blast
  have "sweeps (Suc k) discount_factor ?init = Inr fr'"
    unfolding sweeps_Suc_last using prev one by simp
  with lt all have "leaves_after k discount_factor theta ?init fr'"
    unfolding leaves_after_def by (simp add: not_less)
  then have "\<exists>k. leaves_after k discount_factor theta ?init fr'" ..
  then show ?L unfolding policy_eval_def eval_loop_returns_iff .
qed

theorem evaluate_stopping_rule_witness:
  "\<exists>fr'. policy_eval [[1], [1], [1]] chain3 1 (1 / 100000) = Some (Inr fr') \<and>
     f_V fr' = [0, - 1, - 2] \<and>
     (\<exists>k fr_prev.
        sweeps k 1 \<lparr>f_policy = [[1], [1], [1]], f_env = chain3, f_V = replicate (nS chain3) 0,
                     f_delta = 0\<rparr> = Inr fr_prev \<and>
        sweep_once 1 fr_prev = Inr fr' \<and>
        f_delta fr' = Max (insert 0 ((\<lambda>s. \<bar>f_V fr' ! s - f_V fr_prev ! s\<bar>) ` {..<nS chain3})) \<and>
        f_delta fr' < 1 / 100000 \<and>
        (\<forall>j<k. \<exists>frj.
           sweeps (Suc j) 1 \<lparr>f_policy = [[1], [1], [1]], f_env = chain3,
                              f_V = replicate (nS chain3) 0, f_delta = 0\<rparr> = Inr frj \<and>
           1 / 100000 \<le> f_delta frj))"
proof -
  have "value_of (policy_eval [[1], [1], [1]] chain3 1 (1 / 100000)) = Some (Inr [0, - 1, - 2])"
    by code_simp
  then obtain fr' where run: "policy_eval [[1], [1], [1]] chain3 1 (1 / 100000) = Some (Inr fr')"
    and v: "f_V fr' = [0, - 1, - 2]"
    by (rule value_of_Inr)
  from evaluate_stopping_rule [THEN iffD1, OF run] run v show ?thesis by blast
qed


section \<open>The outer loop and its parameters\<close>

text \<open>
  Claim C10. The parameter \<^verbatim>\<open>policy_eval_fn\<close> is inert: with the environment and the discount
  factor the same, any two functions passed for it give the same result (the same tuple, the
  same exception, or no return at all), because the loop calls \<^verbatim>\<open>policy_eval\<close> itself.
\<close>

theorem policy_eval_fn_inert:
  "policy_improvement e policy_eval_fn discount_factor =
   policy_improvement e policy_eval_fn' discount_factor"
  by (simp add: policy_improvement_def)

text \<open>
  Claim C2 says that each round evaluates the policy under the discount factor given to the
  outer loop. The call is \<^verbatim>\<open>policy_eval(policy, env)\<close>, so the evaluation runs with the
  default \<open>1.0\<close> whatever the loop was given. On \<open>chain3\<close> with discount factor \<open>1/2\<close> the
  outer loop returns after one round with the array \<open>[0, -1, -2]\<close>: this is the value of the
  policy under discount factor 1, while its value under \<open>1/2\<close> is \<open>[0, -1, -3/2]\<close>.
\<close>

theorem solve_evaluates_with_default_discount:
  "returned (policy_improvement chain3 policy_eval (1 / 2)) =
     Some (Inr ([[1], [1], [1]], [0, - 1, - 2])) \<and>
   value_of (policy_eval [[1], [1], [1]] chain3 1 (1 / 100000)) = Some (Inr [0, - 1, - 2]) \<and>
   value_of (policy_eval [[1], [1], [1]] chain3 (1 / 2) (1 / 100000)) =
     Some (Inr [0, - 1, - (3 / 2)])"
  by code_simp

text \<open>
  Claim C7 says that the array returned is the value of the policy returned, also when the
  first round is already stable. On \<open>two_way\<close> the first round is stable (action 0 is greedy
  in both states, and \<^verbatim>\<open>np.argmax\<close> of a uniform row is 0): the loop returns the policy that
  always takes action 0 together with \<open>[0, -1/2]\<close>, the value of the uniform policy it
  evaluated, whereas the value of the policy returned is \<open>[0, 0]\<close>.
\<close>

theorem first_round_returns_value_of_uniform_policy:
  "returned (policy_improvement two_way policy_eval 1) =
     Some (Inr ([[1, 0], [1, 0]], [0, - (1 / 2)])) \<and>
   value_of (policy_eval [[1 / 2, 1 / 2], [1 / 2, 1 / 2]] two_way 1 (1 / 100000)) =
     Some (Inr [0, - (1 / 2)]) \<and>
   value_of (policy_eval [[1, 0], [1, 0]] two_way 1 (1 / 100000)) = Some (Inr [0, 0])"
  by code_simp


section \<open>A single absorbing state\<close>

lemma eval_outcomes_still:
  "\<forall>(p, s', r, d)\<in>set ts. s' = 0 \<and> r = 0 \<Longrightarrow> eval_outcomes ap g [0] v ts = Inr v"
  by (induction ts arbitrary: v) (auto simp: np_index_def)

lemma eval_actions_still:
  "\<forall>(a, ap)\<in>set xs. \<exists>ts. lookup_P e 0 a = Inr ts \<and> (\<forall>(p, s', r, d)\<in>set ts. s' = 0 \<and> r = 0)
     \<Longrightarrow> eval_actions e g [0] 0 v xs = Inr v"
proof (induction xs arbitrary: v)
  case Nil
  show ?case by simp
next
  case (Cons x xs)
  obtain a ap where x: "x = (a, ap)" by (cases x)
  from Cons.prems x obtain ts where ts: "lookup_P e 0 a = Inr ts"
    and still: "\<forall>(p, s', r, d)\<in>set ts. s' = 0 \<and> r = 0" by auto
  from Cons.prems have rest: "\<forall>(a, ap)\<in>set xs. \<exists>ts. lookup_P e 0 a = Inr ts \<and> (\<forall>(p, s', r, d)\<in>set ts. s' = 0 \<and> r = 0)"
    by simp
  show ?case using x ts eval_outcomes_still [OF still] Cons.IH [OF rest] by simp
qed

text \<open>
  Claim C8. For an environment with one state in which every transition of every action the
  policy row covers is a self-loop with reward 0, and for a positive theta, \<^verbatim>\<open>policy_eval\<close>
  returns, the value of the state in the array returned is 0, and the loop body has run
  exactly once: the frame returned is the frame after one pass, and the number \<open>k + 1\<close> of
  the pass that is the first with delta below theta and leaves that frame is 1, that is,
  \<open>leaves_after k\<close> holds of the start frame and the frame returned for \<open>k = 0\<close> and for no
  other \<open>k\<close>.
\<close>

theorem single_state_one_sweep:
  assumes nS: "nS e = 1" and pol: "policy \<noteq> []"
    and loops: "\<forall>a<length (policy ! 0). \<exists>ts. lookup_P e 0 a = Inr ts \<and>
                  (\<forall>(p, s', r, d)\<in>set ts. s' = 0 \<and> r = 0)"
    and theta: "0 < theta"
  shows "\<exists>fr'. policy_eval policy e discount_factor theta = Some (Inr fr') \<and>
           sweeps 1 discount_factor \<lparr>f_policy = policy, f_env = e, f_V = replicate (nS e) 0, f_delta = 0\<rparr> = Inr fr' \<and>
           f_V fr' = [0] \<and>
           (\<forall>k. leaves_after k discount_factor theta
                   \<lparr>f_policy = policy, f_env = e, f_V = replicate (nS e) 0, f_delta = 0\<rparr> fr'
                 \<longleftrightarrow> k = 0)"
proof -
  let ?init = "\<lparr>f_policy = policy, f_env = e, f_V = [0], f_delta = 0\<rparr>"
  have "\<forall>(a, ap)\<in>set (enumerate 0 (policy ! 0)). \<exists>ts. lookup_P e 0 a = Inr ts \<and> (\<forall>(p, s', r, d)\<in>set ts. s' = 0 \<and> r = 0)"
    using loops by (auto simp: in_set_enumerate_eq)
  from eval_actions_still [OF this]
  have bk: "eval_actions e discount_factor [0] 0 0 (enumerate 0 (policy ! 0)) = Inr 0" .
  have one: "sweep_once discount_factor ?init = Inr ?init"
    using pol bk by (simp add: sweep_once_def nS)
  have run: "eval_loop discount_factor theta ?init = Some (Inr ?init)"
    by (subst eval_loop.simps) (simp add: one theta)
  have first: "sweeps (Suc 0) discount_factor ?init = Inr ?init"
    by (simp add: one)
  have count: "leaves_after k discount_factor theta ?init ?init \<longleftrightarrow> k = 0" for k
  proof
    assume lv: "leaves_after k discount_factor theta ?init ?init"
    show "k = 0"
    proof (rule ccontr)
      assume "k \<noteq> 0"
      then have "0 < k" by simp
      with lv obtain frj :: eval_frame
        where sw: "sweeps (Suc 0) discount_factor ?init = Inr frj"
          and big: "\<not> f_delta frj < theta"
        unfolding leaves_after_def by blast
      from sw first have "(Inr frj :: error + eval_frame) = Inr ?init" by (rule trans [OF sym])
      then have "frj = ?init" by (rule Inr_inject)
      then have "f_delta frj = 0" by simp
      with big theta show False by simp
    qed
  next
    assume "k = 0"
    with first theta show "leaves_after k discount_factor theta ?init ?init"
      by (simp add: leaves_after_def)
  qed
  have init: "\<lparr>f_policy = policy, f_env = e, f_V = replicate (nS e) 0, f_delta = 0\<rparr> = ?init"
    by (simp add: nS)
  show ?thesis
    unfolding init
  proof (intro exI [of _ ?init] conjI allI)
    show "policy_eval policy e discount_factor theta = Some (Inr ?init)"
      using run by (simp add: policy_eval_def nS)
    show "sweeps 1 discount_factor ?init = Inr ?init" using first by simp
    show "f_V ?init = [0]" by simp
    show "leaves_after k discount_factor theta ?init ?init \<longleftrightarrow> k = 0" for k
      by (rule count)
  qed
qed

theorem single_state_one_sweep_witness:
  "nS single = 1 \<and> 0 < (1 / 100000 :: real) \<and>
   (\<exists>fr'. policy_eval [[1]] single 1 (1 / 100000) = Some (Inr fr') \<and>
           sweeps 1 1 \<lparr>f_policy = [[1]], f_env = single, f_V = replicate (nS single) 0, f_delta = 0\<rparr> = Inr fr' \<and>
           f_V fr' = [0] \<and>
           (\<forall>k. leaves_after k 1 (1 / 100000)
                   \<lparr>f_policy = [[1]], f_env = single, f_V = replicate (nS single) 0, f_delta = 0\<rparr> fr'
                 \<longleftrightarrow> k = 0))"
proof -
  have a: "nS single = 1" by (simp add: single_def)
  have b: "[[1::real]] \<noteq> []" by simp
  have c: "\<forall>a<length ([[1::real]] ! 0). \<exists>ts. lookup_P single 0 a = Inr ts \<and>
                  (\<forall>(p, s', r, d)\<in>set ts. s' = 0 \<and> r = 0)"
    by (simp add: single_def lookup_P_def)
  have d: "0 < (1 / 100000 :: real)" by simp
  from single_state_one_sweep [OF a b c d, of 1] a d show ?thesis by blast
qed


section \<open>The improvement step\<close>

lemma argmax_from_first_max:
  assumes "b < length ys" "ys ! b = m" "\<forall>j<length ys. ys ! j \<le> m" "\<forall>j<b. ys ! j < m"
  shows "argmax_from b m (length ys) xs < length (ys @ xs) \<and>
         (\<forall>j<length (ys @ xs). (ys @ xs) ! j \<le> (ys @ xs) ! argmax_from b m (length ys) xs) \<and>
         (\<forall>j<argmax_from b m (length ys) xs. (ys @ xs) ! j < (ys @ xs) ! argmax_from b m (length ys) xs)"
  using assms
proof (induction xs arbitrary: b m ys)
  case Nil
  then show ?case by simp
next
  case (Cons x xs)
  have app: "ys @ x # xs = (ys @ [x]) @ xs" by simp
  have len: "Suc (length ys) = length (ys @ [x])" by simp
  show ?case
  proof (cases "m < x")
    case True
    have a1: "length ys < length (ys @ [x])" by simp
    have a2: "(ys @ [x]) ! length ys = x" by simp
    have a3: "\<forall>j<length (ys @ [x]). (ys @ [x]) ! j \<le> x"
      using Cons.prems(3) True by (auto simp: nth_append less_Suc_eq)
    have a4: "\<forall>j<length ys. (ys @ [x]) ! j < x"
      using Cons.prems(3) True by (auto simp: nth_append)
    have step: "argmax_from b m (length ys) (x # xs) = argmax_from (length ys) x (length (ys @ [x])) xs"
      using True by simp
    from Cons.IH [OF a1 a2 a3 a4] show ?thesis
      unfolding step app .
  next
    case False
    have a1: "b < length (ys @ [x])" using Cons.prems(1) by simp
    have a2: "(ys @ [x]) ! b = m" using Cons.prems(1,2) by (simp add: nth_append)
    have a3: "\<forall>j<length (ys @ [x]). (ys @ [x]) ! j \<le> m"
      using Cons.prems(3) False by (auto simp: nth_append less_Suc_eq)
    have a4: "\<forall>j<b. (ys @ [x]) ! j < m"
      using Cons.prems(1,4) by (auto simp: nth_append)
    have step: "argmax_from b m (length ys) (x # xs) = argmax_from b m (length (ys @ [x])) xs"
      using False by simp
    from Cons.IH [OF a1 a2 a3 a4] show ?thesis
      unfolding step app .
  qed
qed

lemma np_argmax_first_max:
  assumes "xs \<noteq> []"
  obtains k where "np_argmax xs = Inr k" "k < length xs"
    "\<forall>j<length xs. xs ! j \<le> xs ! k" "\<forall>j<k. xs ! j < xs ! k"
proof -
  from assms obtain x rest where xs: "xs = x # rest" by (cases xs) auto
  have "argmax_from 0 x (length [x]) rest < length ([x] @ rest) \<and>
         (\<forall>j<length ([x] @ rest). ([x] @ rest) ! j \<le> ([x] @ rest) ! argmax_from 0 x (length [x]) rest) \<and>
         (\<forall>j<argmax_from 0 x (length [x]) rest. ([x] @ rest) ! j < ([x] @ rest) ! argmax_from 0 x (length [x]) rest)"
    by (rule argmax_from_first_max) simp_all
  then show ?thesis using that [of "argmax_from 0 x 1 rest"] xs by (simp add: np_argmax_def)
qed

lemma np_argmax_one_hot:
  assumes "a < n"
  shows "np_argmax (map (\<lambda>j. if j = a then 1 else 0) [0..<n]) = Inr a"
proof -
  let ?row = "map (\<lambda>j. if j = a then 1 else (0::real)) [0..<n]"
  from assms have ne: "?row \<noteq> []" by auto
  obtain k where k: "np_argmax ?row = Inr k" "k < length ?row"
    "\<forall>j<length ?row. ?row ! j \<le> ?row ! k" "\<forall>j<k. ?row ! j < ?row ! k"
    using np_argmax_first_max [OF ne] by blast
  from assms have "a < length ?row" by simp
  with k(3) have "?row ! a \<le> ?row ! k" by blast
  with assms have "1 \<le> ?row ! k" by simp
  with k(2) have "k = a" by (simp split: if_splits)
  with k(1) show ?thesis by simp
qed


lemma greedy_row_argmax:
  assumes "greedy_row e g V s row" "one_step_lookahead e g s V = Inr A" "np_argmax A = Inr a"
  shows "np_argmax row = Inr a \<and> a < nA e \<and> row = map (\<lambda>j. if j = a then 1 else 0) [0..<nA e]"
proof -
  from assms have eye: "np_eye_row (nA e) a = Inr row" by (auto simp: greedy_row_def)
  then have a: "a < nA e" and row: "row = map (\<lambda>j. if j = a then 1 else 0) [0..<nA e]"
    by (auto simp: np_eye_row_def split: if_splits)
  from np_argmax_one_hot [OF a] row a show ?thesis by simp
qed

lemma improve_states_effect:
  "improve_states g st ss = Inr st' \<Longrightarrow> distinct ss \<Longrightarrow>
     g_env st' = g_env st \<and> g_V st' = g_V st \<and> length (g_policy st') = length (g_policy st) \<and>
     (\<forall>s. s \<notin> set ss \<longrightarrow> g_policy st' ! s = g_policy st ! s) \<and>
     (\<forall>s\<in>set ss. s < length (g_policy st) \<and> greedy_row (g_env st) g (g_V st) s (g_policy st' ! s)) \<and>
     (g_policy_stable st' \<longleftrightarrow>
        g_policy_stable st \<and> (\<forall>s\<in>set ss. np_argmax (g_policy st ! s) = np_argmax (g_policy st' ! s)))"
proof (induction ss arbitrary: st)
  case Nil
  then show ?case by simp
next
  case (Cons s ss)
  from Cons.prems(1) obtain old_action A best_a row where
    s: "s < length (g_policy st)" and
    old: "np_argmax (g_policy st ! s) = Inr old_action" and
    A: "one_step_lookahead (g_env st) g s (g_V st) = Inr A" and
    best: "np_argmax A = Inr best_a" and
    row: "np_eye_row (nA (g_env st)) best_a = Inr row" and
    step: "improve_states g
             (st\<lparr>g_policy_stable := (if old_action \<noteq> best_a then False else g_policy_stable st),
                 g_policy := (g_policy st)[s := row]\<rparr>) ss = Inr st'"
    by (auto split: if_splits sum.splits)
  let ?st1 = "st\<lparr>g_policy_stable := (if old_action \<noteq> best_a then False else g_policy_stable st),
                 g_policy := (g_policy st)[s := row]\<rparr>"
  from Cons.prems(2) have ds: "distinct ss" and sn: "s \<notin> set ss" by simp_all
  note IH = Cons.IH [OF step ds]
  from IH have env: "g_env st' = g_env st" and V: "g_V st' = g_V st"
    and len: "length (g_policy st') = length (g_policy st)" by simp_all
  from IH sn s have rs: "g_policy st' ! s = row" by simp
  have gr: "greedy_row (g_env st) g (g_V st) s row"
    unfolding greedy_row_def using A best row by blast
  from greedy_row_argmax [OF gr A best] have new: "np_argmax row = Inr best_a" by (rule conjunct1)
  have keep: "\<forall>t. t \<notin> set (s # ss) \<longrightarrow> g_policy st' ! t = g_policy st ! t"
    using IH by auto
  have rows: "\<forall>t\<in>set (s # ss). t < length (g_policy st) \<and> greedy_row (g_env st) g (g_V st) t (g_policy st' ! t)"
    using IH s gr rs by auto
  have same: "\<forall>t\<in>set ss. g_policy ?st1 ! t = g_policy st ! t"
  proof
    fix t assume "t \<in> set ss"
    with sn have "s \<noteq> t" by blast
    then show "g_policy ?st1 ! t = g_policy st ! t" by simp
  qed
  have "g_policy_stable st' \<longleftrightarrow>
          g_policy_stable ?st1 \<and> (\<forall>t\<in>set ss. np_argmax (g_policy ?st1 ! t) = np_argmax (g_policy st' ! t))"
    using IH by blast
  also have "\<dots> \<longleftrightarrow> (old_action = best_a \<and> g_policy_stable st) \<and>
        (\<forall>t\<in>set ss. np_argmax (g_policy st ! t) = np_argmax (g_policy st' ! t))"
    using same by auto
  also have "\<dots> \<longleftrightarrow> g_policy_stable st \<and>
        (\<forall>t\<in>set (s # ss). np_argmax (g_policy st ! t) = np_argmax (g_policy st' ! t))"
    using old new rs by auto
  finally have stable: "g_policy_stable st' \<longleftrightarrow> g_policy_stable st \<and>
        (\<forall>t\<in>set (s # ss). np_argmax (g_policy st ! t) = np_argmax (g_policy st' ! t))" .
  from env V len keep rows stable show ?case by blast
qed


lemma np_index_in_range:
  "0 \<le> i \<Longrightarrow> i < int (length V) \<Longrightarrow> np_index V i = Inr (V ! nat i)"
  by (simp add: np_index_def)

lemma lookahead_outcomes_sum:
  "\<forall>(p, s', r, d)\<in>set ts. 0 \<le> s' \<and> s' < int (length V) \<Longrightarrow>
     lookahead_outcomes g V x ts = Inr (x + expected_return g V ts)"
proof (induction ts arbitrary: x)
  case Nil
  show ?case by (simp add: expected_return_def)
next
  case (Cons t ts)
  obtain p s' r d where t: "t = (p, s', r, d)" by (cases t)
  from Cons.prems t have s': "0 \<le> s'" "s' < int (length V)" by simp_all
  from Cons.prems have rest: "\<forall>(p, s', r, d)\<in>set ts. 0 \<le> s' \<and> s' < int (length V)" by simp
  show ?case
    using t np_index_in_range [OF s'] Cons.IH [OF rest]
    by (simp add: expected_return_def)
qed

lemma lookahead_actions_values:
  assumes "distinct as"
    and "\<forall>a\<in>set as. a < length A \<and>
           (\<exists>ts. lookup_P e s a = Inr ts \<and> (\<forall>(p, s', r, d)\<in>set ts. 0 \<le> s' \<and> s' < int (length V)))"
  shows "\<exists>A'. lookahead_actions e g s V A as = Inr A' \<and> length A' = length A \<and>
           (\<forall>a<length A. A' ! a = (if a \<in> set as then A ! a + action_value e g V s a else A ! a))"
  using assms
proof (induction as arbitrary: A)
  case Nil
  show ?case by simp
next
  case (Cons a as)
  from Cons.prems obtain ts where a: "a < length A" and ts: "lookup_P e s a = Inr ts"
    and rng: "\<forall>(p, s', r, d)\<in>set ts. 0 \<le> s' \<and> s' < int (length V)" by auto
  let ?A1 = "A[a := A ! a + expected_return g V ts]"
  from Cons.prems have d: "distinct as" and an: "a \<notin> set as" by simp_all
  from Cons.prems have rest: "\<forall>b\<in>set as. b < length ?A1 \<and>
           (\<exists>ts. lookup_P e s b = Inr ts \<and> (\<forall>(p, s', r, d)\<in>set ts. 0 \<le> s' \<and> s' < int (length V)))"
    by simp
  from Cons.IH [OF d rest] obtain A' where
    run: "lookahead_actions e g s V ?A1 as = Inr A'" and len: "length A' = length A" and
    vals: "\<forall>b<length A. A' ! b = (if b \<in> set as then ?A1 ! b + action_value e g V s b else ?A1 ! b)"
    by auto
  have step: "lookahead_actions e g s V A (a # as) = Inr A'"
    using ts a lookahead_outcomes_sum [OF rng] run by simp
  have av: "action_value e g V s a = expected_return g V ts"
    by (simp add: action_value_def transitions_def ts)
  have "\<forall>b<length A. A' ! b = (if b \<in> set (a # as) then A ! b + action_value e g V s b else A ! b)"
  proof (intro allI impI)
    fix b assume b: "b < length A"
    show "A' ! b = (if b \<in> set (a # as) then A ! b + action_value e g V s b else A ! b)"
    proof (cases "b = a")
      case True
      with vals b an a av show ?thesis by simp
    next
      case False
      with vals b show ?thesis by simp
    qed
  qed
  with step len show ?case by blast
qed

lemma one_step_lookahead_values:
  assumes wf: "well_formed e" and s: "s < nS e" and V: "length V = nS e"
  shows "one_step_lookahead e g s V = Inr (map (action_value e g V s) [0..<nA e])"
proof -
  have "\<forall>a\<in>set [0..<nA e]. a < length (replicate (nA e) (0::real)) \<and>
           (\<exists>ts. lookup_P e s a = Inr ts \<and> (\<forall>(p, s', r, d)\<in>set ts. 0 \<le> s' \<and> s' < int (length V)))"
    using wf s V unfolding well_formed_def by simp
  from lookahead_actions_values [OF distinct_upt this, of g]
  obtain A' where run: "lookahead_actions e g s V (replicate (nA e) 0) [0..<nA e] = Inr A'"
    and len: "length A' = nA e"
    and vals: "\<forall>a<nA e. A' ! a = action_value e g V s a"
    by auto
  have "A' = map (action_value e g V s) [0..<nA e]"
    using len vals by (intro nth_equalityI) simp_all
  with run show ?thesis by (simp add: one_step_lookahead_def)
qed

lemma improve_states_total:
  assumes wf: "well_formed (g_env st)" and nA: "0 < nA (g_env st)"
    and V: "length (g_V st) = nS (g_env st)"
    and "distinct ss"
    and "\<forall>s\<in>set ss. s < nS (g_env st) \<and> s < length (g_policy st) \<and> g_policy st ! s \<noteq> []"
  shows "\<exists>st'. improve_states g st ss = Inr st'"
  using assms
proof (induction ss arbitrary: st)
  case Nil
  show ?case by simp
next
  case (Cons s ss)
  from Cons.prems have s: "s < nS (g_env st)" "s < length (g_policy st)" "g_policy st ! s \<noteq> []"
    by simp_all
  obtain old_action where old: "np_argmax (g_policy st ! s) = Inr old_action"
    using np_argmax_first_max [OF s(3)] by blast
  let ?A = "map (action_value (g_env st) g (g_V st) s) [0..<nA (g_env st)]"
  have A: "one_step_lookahead (g_env st) g s (g_V st) = Inr ?A"
    using Cons.prems(1) s(1) Cons.prems(3) by (rule one_step_lookahead_values)
  have "?A \<noteq> []" using Cons.prems(2) by simp
  from np_argmax_first_max [OF this]
  obtain best_a where best: "np_argmax ?A = Inr best_a" and lt: "best_a < length ?A" by blast
  from lt have row: "np_eye_row (nA (g_env st)) best_a =
      Inr (map (\<lambda>j. if j = best_a then 1 else 0) [0..<nA (g_env st)])"
    by (simp add: np_eye_row_def)
  let ?st1 = "st\<lparr>g_policy_stable := (if old_action \<noteq> best_a then False else g_policy_stable st),
                 g_policy := (g_policy st)[s := map (\<lambda>j. if j = best_a then 1 else 0) [0..<nA (g_env st)]]\<rparr>"
  have rest: "\<forall>t\<in>set ss. t < nS (g_env ?st1) \<and> t < length (g_policy ?st1) \<and> g_policy ?st1 ! t \<noteq> []"
  proof
    fix t assume t: "t \<in> set ss"
    with Cons.prems(4) have "s \<noteq> t" by auto
    with t Cons.prems(5) show "t < nS (g_env ?st1) \<and> t < length (g_policy ?st1) \<and> g_policy ?st1 ! t \<noteq> []"
      by simp
  qed
  have "\<exists>st'. improve_states g ?st1 ss = Inr st'"
    using Cons.prems by (intro Cons.IH rest) simp_all
  then show ?case using s(2) old A best row by simp
qed

lemma one_hot_sum:
  assumes "a < n"
  shows "sum_list (map (\<lambda>j. if j = a then 1 else (0::real)) [0..<n]) = 1"
proof -
  have "sum_list (map (\<lambda>j. if j = a then 1 else (0::real)) [0..<n]) = (\<Sum>j\<in>{0..<n}. if j = a then 1 else 0)"
    by (simp add: interv_sum_list_conv_sum_set_nat)
  also have "\<dots> = 1" using assms by simp
  finally show ?thesis .
qed

lemma one_hot_nonzero:
  assumes "a < n"
  shows "length (filter (\<lambda>x. x \<noteq> 0) (map (\<lambda>j. if j = a then 1 else (0::real)) [0..<n])) = 1"
proof -
  have "{i. i < length (map (\<lambda>j. if j = a then 1 else (0::real)) [0..<n]) \<and>
            map (\<lambda>j. if j = a then 1 else (0::real)) [0..<n] ! i \<noteq> 0} = {a}"
    using assms by (auto split: if_splits)
  then show ?thesis by (simp only: length_filter_conv_card) simp
qed

lemma well_formed_two_way: "well_formed two_way"
  unfolding well_formed_def
  by (simp add: two_way_def lookup_P_def numeral_2_eq_2 less_Suc_eq)


text \<open>
  Claim C3. On a well-formed environment with at least one action, a value array of length
  \<open>nS\<close> and a policy array of \<open>nS\<close> non-empty rows, the improvement step returns, and for
  every state \<open>s\<close> the row it wrote is one-hot: there is an action \<open>a\<close> such that the row is 1
  at \<open>a\<close> and 0 elsewhere, its entries sum to 1, exactly one entry is not 0, and \<open>a\<close> is the
  lowest-indexed maximiser of the action values
  \<open>A(b) = \<Sum> p * (r + discount_factor * V[s'])\<close>.
\<close>

theorem improved_rows_one_hot_at_first_maximum:
  assumes wf: "well_formed e" and nA: "0 < nA e" and V: "length V = nS e"
    and pol: "length policy = nS e" and rows: "\<forall>row\<in>set policy. row \<noteq> []"
  shows "\<exists>st'. improve_states discount_factor
                 \<lparr>g_policy = policy, g_env = e, g_V = V, g_policy_stable = True\<rparr> [0..<nS e] = Inr st' \<and>
           length (g_policy st') = nS e \<and>
           (\<forall>s<nS e. \<exists>a<nA e.
              (\<forall>b<nA e. action_value e discount_factor V s b \<le> action_value e discount_factor V s a) \<and>
              (\<forall>b<a. action_value e discount_factor V s b < action_value e discount_factor V s a) \<and>
              g_policy st' ! s = map (\<lambda>j. if j = a then 1 else 0) [0..<nA e] \<and>
              g_policy st' ! s ! a = 1 \<and>
              sum_list (g_policy st' ! s) = 1 \<and>
              length (filter (\<lambda>x. x \<noteq> 0) (g_policy st' ! s)) = 1)"
proof -
  let ?st = "\<lparr>g_policy = policy, g_env = e, g_V = V, g_policy_stable = True\<rparr>"
  have "\<forall>s\<in>set [0..<nS e]. s < nS (g_env ?st) \<and> s < length (g_policy ?st) \<and> g_policy ?st ! s \<noteq> []"
    using pol rows by simp
  with wf nA V have "\<exists>st'. improve_states discount_factor ?st [0..<nS e] = Inr st'"
    by (intro improve_states_total) simp_all
  then obtain st' where run: "improve_states discount_factor ?st [0..<nS e] = Inr st'" ..
  note eff = improve_states_effect [OF run distinct_upt]
  from eff pol have len: "length (g_policy st') = nS e" by simp
  have "\<forall>s<nS e. \<exists>a<nA e.
              (\<forall>b<nA e. action_value e discount_factor V s b \<le> action_value e discount_factor V s a) \<and>
              (\<forall>b<a. action_value e discount_factor V s b < action_value e discount_factor V s a) \<and>
              g_policy st' ! s = map (\<lambda>j. if j = a then 1 else 0) [0..<nA e] \<and>
              g_policy st' ! s ! a = 1 \<and>
              sum_list (g_policy st' ! s) = 1 \<and>
              length (filter (\<lambda>x. x \<noteq> 0) (g_policy st' ! s)) = 1"
  proof (intro allI impI)
    fix s assume s: "s < nS e"
    let ?A = "map (action_value e discount_factor V s) [0..<nA e]"
    from eff s have gr: "greedy_row e discount_factor V s (g_policy st' ! s)" by simp
    have A: "one_step_lookahead e discount_factor s V = Inr ?A"
      using wf s V by (rule one_step_lookahead_values)
    have "?A \<noteq> []" using nA by simp
    from np_argmax_first_max [OF this]
    obtain a where a: "np_argmax ?A = Inr a" "a < length ?A"
      "\<forall>j<length ?A. ?A ! j \<le> ?A ! a" "\<forall>j<a. ?A ! j < ?A ! a" by blast
    from a(2) have an: "a < nA e" by simp
    from greedy_row_argmax [OF gr A a(1)]
    have row: "g_policy st' ! s = map (\<lambda>j. if j = a then 1 else 0) [0..<nA e]" by simp
    have le: "\<forall>b<nA e. action_value e discount_factor V s b \<le> action_value e discount_factor V s a"
      using a(3) an by simp
    have lt: "\<forall>b<a. action_value e discount_factor V s b < action_value e discount_factor V s a"
      using a(4) an by simp
    have at: "g_policy st' ! s ! a = 1" using row an by simp
    have sm: "sum_list (g_policy st' ! s) = 1" unfolding row using an by (rule one_hot_sum)
    have nz: "length (filter (\<lambda>x. x \<noteq> 0) (g_policy st' ! s)) = 1"
      unfolding row using an by (rule one_hot_nonzero)
    from an le lt row at sm nz
    show "\<exists>a<nA e.
              (\<forall>b<nA e. action_value e discount_factor V s b \<le> action_value e discount_factor V s a) \<and>
              (\<forall>b<a. action_value e discount_factor V s b < action_value e discount_factor V s a) \<and>
              g_policy st' ! s = map (\<lambda>j. if j = a then 1 else 0) [0..<nA e] \<and>
              g_policy st' ! s ! a = 1 \<and>
              sum_list (g_policy st' ! s) = 1 \<and>
              length (filter (\<lambda>x. x \<noteq> 0) (g_policy st' ! s)) = 1" by blast
  qed
  with run len show ?thesis by blast
qed

theorem improved_rows_one_hot_at_first_maximum_witness:
  "well_formed two_way \<and> 0 < nA two_way \<and> length [0, - (1 / 2) :: real] = nS two_way \<and>
   (\<exists>st'. improve_states 1
                 \<lparr>g_policy = [[1 / 2, 1 / 2], [1 / 2, 1 / 2]], g_env = two_way, g_V = [0, - (1 / 2)],
                  g_policy_stable = True\<rparr> [0..<nS two_way] = Inr st' \<and>
           length (g_policy st') = nS two_way \<and>
           (\<forall>s<nS two_way. \<exists>a<nA two_way.
              (\<forall>b<nA two_way. action_value two_way 1 [0, - (1 / 2)] s b \<le> action_value two_way 1 [0, - (1 / 2)] s a) \<and>
              (\<forall>b<a. action_value two_way 1 [0, - (1 / 2)] s b < action_value two_way 1 [0, - (1 / 2)] s a) \<and>
              g_policy st' ! s = map (\<lambda>j. if j = a then 1 else 0) [0..<nA two_way] \<and>
              g_policy st' ! s ! a = 1 \<and>
              sum_list (g_policy st' ! s) = 1 \<and>
              length (filter (\<lambda>x. x \<noteq> 0) (g_policy st' ! s)) = 1))"
proof -
  have a: "0 < nA two_way" by (simp add: two_way_def)
  have b: "length [0, - (1 / 2) :: real] = nS two_way" by (simp add: two_way_def)
  have c: "length [[1 / 2, 1 / 2], [1 / 2, 1 / 2 :: real]] = nS two_way" by (simp add: two_way_def)
  have d: "\<forall>row\<in>set [[1 / 2, 1 / 2], [1 / 2, 1 / 2 :: real]]. row \<noteq> []" by simp
  from improved_rows_one_hot_at_first_maximum [OF well_formed_two_way a b c d, of 1]
    well_formed_two_way a b
  show ?thesis by blast
qed


text \<open>
  Claim C5. When a round of the outer loop completes (evaluation returned and the
  improvement step raised nothing), the flag \<^verbatim>\<open>policy_stable\<close> holds exactly when for every
  state the \<^verbatim>\<open>np.argmax\<close> of the row the round started with equals the \<^verbatim>\<open>np.argmax\<close> of the
  row it wrote; the loop returns the frame of this round when the flag holds, and otherwise
  goes into another round with the new policy.
\<close>

theorem loop_returns_iff_policy_stable:
  assumes round: "improve_round discount_factor policy e = Some (Inr st')"
  shows "(g_policy_stable st' \<longleftrightarrow>
            (\<forall>s<nS e. np_argmax (policy ! s) = np_argmax (g_policy st' ! s))) \<and>
         (g_policy_stable st' \<longrightarrow>
            improvement_loop discount_factor policy e = Some (Inr st')) \<and>
         (\<not> g_policy_stable st' \<longrightarrow>
            improvement_loop discount_factor policy e =
            improvement_loop discount_factor (g_policy st') (g_env st'))"
proof -
  from round obtain fr where ev: "policy_eval policy e 1 (1 / 100000) = Some (Inr fr)"
    and imp: "improve_states discount_factor
                \<lparr>g_policy = f_policy fr, g_env = f_env fr, g_V = f_V fr, g_policy_stable = True\<rparr>
                [0..<nS (f_env fr)] = Inr st'"
    by (auto simp: improve_round_def split: option.splits sum.splits)
  from policy_eval_frame [OF ev] have fr: "f_policy fr = policy" "f_env fr = e" by simp_all
  from improve_states_effect [OF imp distinct_upt] fr
  have stable: "g_policy_stable st' \<longleftrightarrow>
            (\<forall>s<nS e. np_argmax (policy ! s) = np_argmax (g_policy st' ! s))" by auto
  have loop: "improvement_loop discount_factor policy e =
      (if g_policy_stable st' then Some (Inr st')
       else improvement_loop discount_factor (g_policy st') (g_env st'))"
    by (subst improvement_loop.simps) (simp add: round)
  show ?thesis
  proof (cases "g_policy_stable st'")
    case True
    with stable loop show ?thesis by (simp only: if_True simp_thms)
  next
    case False
    with stable loop show ?thesis by (simp only: if_False simp_thms)
  qed
qed

theorem loop_returns_iff_policy_stable_witness:
  "\<exists>st'. improve_round 1 [[1 / 2, 1 / 2], [1 / 2, 1 / 2]] two_way = Some (Inr st') \<and>
     (g_policy_stable st' \<longleftrightarrow>
        (\<forall>s<nS two_way. np_argmax ([[1 / 2, 1 / 2], [1 / 2, 1 / 2]] ! s) = np_argmax (g_policy st' ! s))) \<and>
     (g_policy_stable st' \<longrightarrow>
        improvement_loop 1 [[1 / 2, 1 / 2], [1 / 2, 1 / 2]] two_way = Some (Inr st')) \<and>
     (\<not> g_policy_stable st' \<longrightarrow>
        improvement_loop 1 [[1 / 2, 1 / 2], [1 / 2, 1 / 2]] two_way =
        improvement_loop 1 (g_policy st') (g_env st'))"
proof -
  have "returned (improve_round 1 [[1 / 2, 1 / 2], [1 / 2, 1 / 2]] two_way) =
          Some (Inr ([[1, 0], [1, 0]], [0, - (1 / 2)]))"
    by code_simp
  then obtain st' where round: "improve_round 1 [[1 / 2, 1 / 2], [1 / 2, 1 / 2]] two_way = Some (Inr st')"
    by (rule returned_Inr)
  from loop_returns_iff_policy_stable [OF round] round show ?thesis by blast
qed


text \<open>
  Claim C9. \<^verbatim>\<open>policy_eval\<close> leaves the policy array and the environment it was passed as they
  were. The improvement step leaves the environment and the value array as they were; the
  rows it writes go into the policy array of the outer loop, and they depend on the
  environment, the value array and the discount factor only: started on two policy arrays
  of \<open>nS\<close> rows, it ends with the same policy.
\<close>

theorem evaluate_and_improve_leave_inputs:
  "(policy_eval policy e discount_factor theta = Some (Inr fr') \<longrightarrow>
      f_policy fr' = policy \<and> f_env fr' = e) \<and>
   (improve_states discount_factor st [0..<nS (g_env st)] = Inr st' \<longrightarrow>
      g_env st' = g_env st \<and> g_V st' = g_V st) \<and>
   (improve_states discount_factor st [0..<nS (g_env st)] = Inr st' \<and>
    improve_states discount_factor st2 [0..<nS (g_env st)] = Inr st2' \<and>
    g_env st2 = g_env st \<and> g_V st2 = g_V st \<and>
    length (g_policy st) = nS (g_env st) \<and> length (g_policy st2) = nS (g_env st) \<longrightarrow>
      g_policy st2' = g_policy st')"
proof (intro conjI impI)
  assume "policy_eval policy e discount_factor theta = Some (Inr fr')"
  from policy_eval_frame [OF this] show "f_policy fr' = policy" "f_env fr' = e" by simp_all
next
  assume "improve_states discount_factor st [0..<nS (g_env st)] = Inr st'"
  from improve_states_effect [OF this distinct_upt] show "g_env st' = g_env st" "g_V st' = g_V st"
    by simp_all
next
  assume a: "improve_states discount_factor st [0..<nS (g_env st)] = Inr st' \<and>
    improve_states discount_factor st2 [0..<nS (g_env st)] = Inr st2' \<and>
    g_env st2 = g_env st \<and> g_V st2 = g_V st \<and>
    length (g_policy st) = nS (g_env st) \<and> length (g_policy st2) = nS (g_env st)"
  then have r1: "improve_states discount_factor st [0..<nS (g_env st)] = Inr st'"
    and r2: "improve_states discount_factor st2 [0..<nS (g_env st)] = Inr st2'"
    and same: "g_env st2 = g_env st" "g_V st2 = g_V st"
    and len: "length (g_policy st) = nS (g_env st)" "length (g_policy st2) = nS (g_env st)"
    by simp_all
  note e1 = improve_states_effect [OF r1 distinct_upt]
  note e2 = improve_states_effect [OF r2 distinct_upt]
  show "g_policy st2' = g_policy st'"
  proof (rule nth_equalityI)
    show "length (g_policy st2') = length (g_policy st')" using e1 e2 len by simp
  next
    fix s assume "s < length (g_policy st2')"
    with e2 len have s: "s < nS (g_env st)" by simp
    from e1 s have g1: "greedy_row (g_env st) discount_factor (g_V st) s (g_policy st' ! s)" by simp
    from e2 s same have g2: "greedy_row (g_env st) discount_factor (g_V st) s (g_policy st2' ! s)" by simp
    from g1 g2 show "g_policy st2' ! s = g_policy st' ! s"
      unfolding greedy_row_def by auto
  qed
qed

theorem evaluate_and_improve_leave_inputs_witness:
  "\<exists>fr' st' st2'.
     policy_eval [[1 / 2, 1 / 2], [1 / 2, 1 / 2]] two_way 1 (1 / 100000) = Some (Inr fr') \<and>
     f_policy fr' = [[1 / 2, 1 / 2], [1 / 2, 1 / 2]] \<and> f_env fr' = two_way \<and>
     improve_states 1 \<lparr>g_policy = [[1 / 2, 1 / 2], [1 / 2, 1 / 2]], g_env = two_way,
                        g_V = [0, - (1 / 2)], g_policy_stable = True\<rparr> [0..<nS two_way] = Inr st' \<and>
     g_env st' = two_way \<and> g_V st' = [0, - (1 / 2)] \<and>
     improve_states 1 \<lparr>g_policy = [[0, 1], [0, 1]], g_env = two_way,
                        g_V = [0, - (1 / 2)], g_policy_stable = True\<rparr> [0..<nS two_way] = Inr st2' \<and>
     g_policy st2' = g_policy st'"
proof -
  let ?st = "\<lparr>g_policy = [[1 / 2, 1 / 2], [1 / 2, 1 / 2]], g_env = two_way,
                        g_V = [0, - (1 / 2)], g_policy_stable = True\<rparr>"
  let ?st2 = "\<lparr>g_policy = [[0, 1], [0, 1]], g_env = two_way,
                        g_V = [0, - (1 / 2)], g_policy_stable = True\<rparr>"
  have "value_of (policy_eval [[1 / 2, 1 / 2], [1 / 2, 1 / 2]] two_way 1 (1 / 100000)) =
          Some (Inr [0, - (1 / 2)])"
    by code_simp
  then obtain fr' where ev: "policy_eval [[1 / 2, 1 / 2], [1 / 2, 1 / 2]] two_way 1 (1 / 100000) = Some (Inr fr')"
    by (rule value_of_Inr)
  have "map_sum id g_policy (improve_states 1 ?st [0..<nS two_way]) = Inr [[1, 0], [1, 0]]"
    by code_simp
  then obtain st' where r1: "improve_states 1 ?st [0..<nS two_way] = Inr st'"
    by (rule map_sum_Inr)
  have "map_sum id g_policy (improve_states 1 ?st2 [0..<nS two_way]) = Inr [[1, 0], [1, 0]]"
    by code_simp
  then obtain st2' where r2: "improve_states 1 ?st2 [0..<nS two_way] = Inr st2'"
    by (rule map_sum_Inr)
  have n: "nS two_way = 2" by (simp add: two_way_def)
  from evaluate_and_improve_leave_inputs
         [where policy = "[[1 / 2, 1 / 2], [1 / 2, 1 / 2]]" and e = two_way
            and discount_factor = 1 and theta = "1 / 100000" and fr' = fr'
            and st = ?st and st' = st' and ?st2.0 = ?st2 and st2' = st2']
    ev r1 r2 n
  show ?thesis by (intro exI [of _ fr'] exI [of _ st'] exI [of _ st2']) simp
qed



section \<open>The order of the updates within a sweep\<close>

text \<open>
  Claim C1 says that \<^verbatim>\<open>policy_eval\<close> equals the synchronous evaluator. It does not: on
  \<open>chain3\<close> the first pass of the loop body writes \<open>V[1] = -1\<close> and then computes \<open>V[2]\<close> from
  that new entry, which gives \<open>[0, -1, -2]\<close>, where a synchronous sweep gives \<open>[0, -1, -1]\<close>.
  With \<open>theta = 2\<close> the two evaluators return these different arrays. With the default
  \<open>theta = 0.00001\<close> they differ on \<open>loop2\<close> at discount factor \<open>1/2\<close>: there \<open>V[0]\<close> is
  \<open>2 - 2\<^sup>1\<^sup>-\<^sup>k\<close> after \<open>k\<close> sweeps, both loops leave after sweep 18, and \<open>V[1]\<close> is half of the
  \<open>V[0]\<close> of sweep 18 in the program and half of the \<open>V[0]\<close> of sweep 17 in the synchronous
  evaluator.
\<close>

theorem evaluate_is_not_jacobi:
  "map_sum id f_V (sweep_once 1 \<lparr>f_policy = [[1], [1], [1]], f_env = chain3,
                                  f_V = replicate (nS chain3) 0, f_delta = 0\<rparr>) = Inr [0, - 1, - 2] \<and>
   jacobi_sweep [[1], [1], [1]] chain3 1 (replicate (nS chain3) 0) = [0, - 1, - 1] \<and>
   value_of (policy_eval [[1], [1], [1]] chain3 1 2) = Some (Inr [0, - 1, - 2]) \<and>
   jacobi_evaluate [[1], [1], [1]] chain3 1 2 = Some [0, - 1, - 1] \<and>
   value_of (policy_eval [[1], [1], [1]] chain3 1 2) \<noteq>
     map_option Inr (jacobi_evaluate [[1], [1], [1]] chain3 1 2) \<and>
   value_of (policy_eval [[1], [1]] loop2 (1 / 2) (1 / 100000)) =
     Some (Inr [262143 / 131072, 262143 / 262144]) \<and>
   jacobi_evaluate [[1], [1]] loop2 (1 / 2) (1 / 100000) =
     Some [262143 / 131072, 131071 / 131072]"
  by code_simp

lemma eval_outcomes_sum:
  "\<forall>(p, s', r, d)\<in>set ts. 0 \<le> s' \<and> s' < int (length V) \<Longrightarrow>
     eval_outcomes ap g V v ts = Inr (v + ap * expected_return g V ts)"
proof (induction ts arbitrary: v)
  case Nil
  show ?case by (simp add: expected_return_def)
next
  case (Cons t ts)
  obtain p s' r d where t: "t = (p, s', r, d)" by (cases t)
  from Cons.prems t have s': "0 \<le> s'" "s' < int (length V)" by simp_all
  from Cons.prems have rest: "\<forall>(p, s', r, d)\<in>set ts. 0 \<le> s' \<and> s' < int (length V)" by simp
  show ?case
    using t np_index_in_range [OF s'] Cons.IH [OF rest]
    by (simp add: expected_return_def algebra_simps)
qed

lemma eval_actions_sum:
  "\<forall>(a, ap)\<in>set xs. \<exists>ts. lookup_P e s a = Inr ts \<and>
      (\<forall>(p, s', r, d)\<in>set ts. 0 \<le> s' \<and> s' < int (length V)) \<Longrightarrow>
   eval_actions e g V s v xs =
     Inr (v + (\<Sum>(a, ap)\<leftarrow>xs. ap * expected_return g V (transitions e s a)))"
proof (induction xs arbitrary: v)
  case Nil
  show ?case by simp
next
  case (Cons x xs)
  obtain a ap where x: "x = (a, ap)" by (cases x)
  from Cons.prems x obtain ts where ts: "lookup_P e s a = Inr ts"
    and rng: "\<forall>(p, s', r, d)\<in>set ts. 0 \<le> s' \<and> s' < int (length V)" by auto
  from Cons.prems have rest: "\<forall>(a, ap)\<in>set xs. \<exists>ts. lookup_P e s a = Inr ts \<and>
      (\<forall>(p, s', r, d)\<in>set ts. 0 \<le> s' \<and> s' < int (length V))" by simp
  have tr: "transitions e s a = ts" by (simp add: transitions_def ts)
  show ?case
    using x ts eval_outcomes_sum [OF rng] Cons.IH [OF rest] tr by simp
qed

lemma sum_enumerate:
  "(\<Sum>(a, ap)\<leftarrow>enumerate 0 row. f a ap) = (\<Sum>a\<leftarrow>[0..<length row]. f a (row ! a))"
proof -
  have "map (\<lambda>(a, ap). f a ap) (enumerate 0 row) = map (\<lambda>a. f a (row ! a)) [0..<length row]"
    by (rule nth_equalityI) (simp_all add: nth_enumerate_eq)
  then show ?thesis by simp
qed

lemma full_backup_eval_actions:
  assumes wf: "well_formed e" and sh: "policy_shape policy e" and s: "s < nS e"
    and V: "length V = nS e"
  shows "eval_actions e g V s 0 (enumerate 0 (policy ! s)) = Inr (full_backup policy e g V s)"
proof -
  from sh s have len: "length (policy ! s) = nA e" by (simp add: policy_shape_def)
  have "\<forall>(a, ap)\<in>set (enumerate 0 (policy ! s)). \<exists>ts. lookup_P e s a = Inr ts \<and>
      (\<forall>(p, s', r, d)\<in>set ts. 0 \<le> s' \<and> s' < int (length V))"
    using wf s V len unfolding well_formed_def by (auto simp: in_set_enumerate_eq)
  from eval_actions_sum [OF this, of g 0] show ?thesis
    by (simp add: full_backup_def sum_enumerate)
qed

lemma sweep_inplace:
  assumes wf: "well_formed (f_env fr)" and sh: "policy_shape (f_policy fr) (f_env fr)"
    and V: "length (f_V fr) = nS (f_env fr)" and ss: "\<forall>s\<in>set ss. s < nS (f_env fr)"
  shows "\<exists>fr'. sweep g fr ss = Inr fr' \<and>
           f_V fr' = inplace_sweep (f_policy fr) (f_env fr) g (f_V fr) ss"
  using assms
proof (induction ss arbitrary: fr)
  case Nil
  show ?case by simp
next
  case (Cons s ss)
  from Cons.prems have s: "s < nS (f_env fr)" by simp
  let ?v = "full_backup (f_policy fr) (f_env fr) g (f_V fr) s"
  let ?fr1 = "fr\<lparr>f_delta := max (f_delta fr) \<bar>?v - f_V fr ! s\<bar>, f_V := (f_V fr)[s := ?v]\<rparr>"
  have bk: "eval_actions (f_env fr) g (f_V fr) s 0 (enumerate 0 (f_policy fr ! s)) = Inr ?v"
    using Cons.prems(1,2) s Cons.prems(3) by (rule full_backup_eval_actions)
  from Cons.prems(2) s have sp: "s < length (f_policy fr)" by (simp add: policy_shape_def)
  from Cons.prems(3) s have sv: "s < length (f_V fr)" by simp
  have "\<exists>fr'. sweep g ?fr1 ss = Inr fr' \<and>
           f_V fr' = inplace_sweep (f_policy ?fr1) (f_env ?fr1) g (f_V ?fr1) ss"
    using Cons.prems by (intro Cons.IH) simp_all
  then show ?case using bk sp sv by simp
qed

lemma fold_max_Max:
  fixes xs :: "real list"
  shows "fold max xs a = Max (insert a (set xs))"
  using Max.set_eq_fold [of a xs] by simp

lemma max_change_Max:
  assumes "length V_new = n" "length V_old = n"
  shows "max_change V_new V_old = Max (insert 0 ((\<lambda>s. \<bar>V_new ! s - V_old ! s\<bar>) ` {..<n}))"
proof -
  have "set (map2 (\<lambda>x y. \<bar>x - y\<bar>) V_new V_old) = (\<lambda>s. \<bar>V_new ! s - V_old ! s\<bar>) ` {..<n}"
    using assms by (auto simp: set_zip image_iff)
  then show ?thesis by (simp add: max_change_def fold_max_Max)
qed

lemma sweep_once_inplace:
  assumes wf: "well_formed (f_env fr)" and sh: "policy_shape (f_policy fr) (f_env fr)"
    and V: "length (f_V fr) = nS (f_env fr)"
  obtains fr' where "sweep_once g fr = Inr fr'"
    and "f_V fr' = inplace_sweep (f_policy fr) (f_env fr) g (f_V fr) [0..<nS (f_env fr)]"
    and "f_delta fr' = max_change (f_V fr') (f_V fr)"
    and "f_policy fr' = f_policy fr" and "f_env fr' = f_env fr"
    and "length (f_V fr') = nS (f_env fr)"
proof -
  have "\<exists>fr'. sweep g (fr\<lparr>f_delta := 0\<rparr>) [0..<nS (f_env fr)] = Inr fr' \<and>
           f_V fr' = inplace_sweep (f_policy (fr\<lparr>f_delta := 0\<rparr>)) (f_env (fr\<lparr>f_delta := 0\<rparr>)) g
                       (f_V (fr\<lparr>f_delta := 0\<rparr>)) [0..<nS (f_env fr)]"
    using assms by (intro sweep_inplace) simp_all
  then obtain fr' where run: "sweep_once g fr = Inr fr'"
    and v: "f_V fr' = inplace_sweep (f_policy fr) (f_env fr) g (f_V fr) [0..<nS (f_env fr)]"
    by (auto simp: sweep_once_def)
  note frm = sweep_once_frame [OF run]
  from frm V have len: "length (f_V fr') = nS (f_env fr)" by simp
  have "f_delta fr' = max_change (f_V fr') (f_V fr)"
    using sweep_once_delta [OF run] max_change_Max [OF len V] by simp
  with run v frm len show ?thesis using that by blast
qed

lemma eval_loop_imp_inplace:
  assumes run: "eval_loop g th fr = Some r"
  shows "well_formed (f_env fr) \<longrightarrow> policy_shape (f_policy fr) (f_env fr) \<longrightarrow>
         length (f_V fr) = nS (f_env fr) \<longrightarrow>
         (\<exists>fr'. r = Inr fr' \<and>
                 inplace_loop (f_policy fr) (f_env fr) g th (f_V fr) = Some (f_V fr'))"
proof (rule eval_loop.raw_induct [where P = "\<lambda>g th fr r.
         well_formed (f_env fr) \<longrightarrow> policy_shape (f_policy fr) (f_env fr) \<longrightarrow>
         length (f_V fr) = nS (f_env fr) \<longrightarrow>
         (\<exists>fr'. r = Inr fr' \<and>
                 inplace_loop (f_policy fr) (f_env fr) g th (f_V fr) = Some (f_V fr'))", OF _ run])
  fix loop g0 th0 fr0 r0
  assume IH: "\<And>g th fr r. loop g th fr = Some r \<Longrightarrow>
         well_formed (f_env fr) \<longrightarrow> policy_shape (f_policy fr) (f_env fr) \<longrightarrow>
         length (f_V fr) = nS (f_env fr) \<longrightarrow>
         (\<exists>fr'. r = Inr fr' \<and>
                 inplace_loop (f_policy fr) (f_env fr) g th (f_V fr) = Some (f_V fr'))"
    and body: "(case sweep_once g0 fr0 of Inl err \<Rightarrow> Some (Inl err)
          | Inr fr' \<Rightarrow> if f_delta fr' < th0 then Some (Inr fr') else loop g0 th0 fr') = Some r0"
  show "well_formed (f_env fr0) \<longrightarrow> policy_shape (f_policy fr0) (f_env fr0) \<longrightarrow>
         length (f_V fr0) = nS (f_env fr0) \<longrightarrow>
         (\<exists>fr'. r0 = Inr fr' \<and>
                 inplace_loop (f_policy fr0) (f_env fr0) g0 th0 (f_V fr0) = Some (f_V fr'))"
  proof (intro impI)
    assume wf: "well_formed (f_env fr0)" and sh: "policy_shape (f_policy fr0) (f_env fr0)"
      and V: "length (f_V fr0) = nS (f_env fr0)"
    from sweep_once_inplace [OF wf sh V, of g0]
    obtain fr1 where one: "sweep_once g0 fr0 = Inr fr1"
      and v1: "f_V fr1 = inplace_sweep (f_policy fr0) (f_env fr0) g0 (f_V fr0) [0..<nS (f_env fr0)]"
      and d1: "f_delta fr1 = max_change (f_V fr1) (f_V fr0)"
      and p1: "f_policy fr1 = f_policy fr0" and e1: "f_env fr1 = f_env fr0"
      and l1: "length (f_V fr1) = nS (f_env fr0)" by blast
    have unfold: "inplace_loop (f_policy fr0) (f_env fr0) g0 th0 (f_V fr0) =
        (if f_delta fr1 < th0 then Some (f_V fr1)
         else inplace_loop (f_policy fr0) (f_env fr0) g0 th0 (f_V fr1))"
      by (subst inplace_loop.simps) (simp add: Let_def v1 [symmetric] d1 [symmetric])
    show "\<exists>fr'. r0 = Inr fr' \<and>
                 inplace_loop (f_policy fr0) (f_env fr0) g0 th0 (f_V fr0) = Some (f_V fr')"
    proof (cases "f_delta fr1 < th0")
      case True
      with body one have "r0 = Inr fr1" by simp
      with unfold True show ?thesis by simp
    next
      case False
      with body one have "loop g0 th0 fr1 = Some r0" by simp
      from IH [OF this] wf sh p1 e1 l1
      obtain fr' where "r0 = Inr fr'"
        "inplace_loop (f_policy fr0) (f_env fr0) g0 th0 (f_V fr1) = Some (f_V fr')" by auto
      with unfold False show ?thesis by simp
    qed
  qed
qed

lemma inplace_imp_eval_loop:
  assumes run: "inplace_loop policy e g th V = Some V'"
  shows "\<forall>fr. well_formed e \<and> policy_shape policy e \<and> f_policy fr = policy \<and> f_env fr = e \<and>
              f_V fr = V \<and> length V = nS e \<longrightarrow>
              (\<exists>fr'. eval_loop g th fr = Some (Inr fr') \<and> f_V fr' = V')"
proof (rule inplace_loop.raw_induct [where P = "\<lambda>policy e g th V V'.
         \<forall>fr. well_formed e \<and> policy_shape policy e \<and> f_policy fr = policy \<and> f_env fr = e \<and>
              f_V fr = V \<and> length V = nS e \<longrightarrow>
              (\<exists>fr'. eval_loop g th fr = Some (Inr fr') \<and> f_V fr' = V')", OF _ run])
  fix loop policy0 e0 g0 th0 V0 V0'
  assume IH: "\<And>policy e g th V V'. loop policy e g th V = Some V' \<Longrightarrow>
         \<forall>fr. well_formed e \<and> policy_shape policy e \<and> f_policy fr = policy \<and> f_env fr = e \<and>
              f_V fr = V \<and> length V = nS e \<longrightarrow>
              (\<exists>fr'. eval_loop g th fr = Some (Inr fr') \<and> f_V fr' = V')"
    and body: "(let V_new = inplace_sweep policy0 e0 g0 V0 [0..<nS e0] in
          if max_change V_new V0 < th0 then Some V_new else loop policy0 e0 g0 th0 V_new) = Some V0'"
  show "\<forall>fr. well_formed e0 \<and> policy_shape policy0 e0 \<and> f_policy fr = policy0 \<and> f_env fr = e0 \<and>
              f_V fr = V0 \<and> length V0 = nS e0 \<longrightarrow>
              (\<exists>fr'. eval_loop g0 th0 fr = Some (Inr fr') \<and> f_V fr' = V0')"
  proof (intro allI impI)
    fix fr :: eval_frame
    assume a: "well_formed e0 \<and> policy_shape policy0 e0 \<and> f_policy fr = policy0 \<and> f_env fr = e0 \<and>
              f_V fr = V0 \<and> length V0 = nS e0"
    then have wf: "well_formed (f_env fr)" and sh: "policy_shape (f_policy fr) (f_env fr)"
      and V: "length (f_V fr) = nS (f_env fr)" by simp_all
    from sweep_once_inplace [OF wf sh V, of g0]
    obtain fr1 where one: "sweep_once g0 fr = Inr fr1"
      and v1: "f_V fr1 = inplace_sweep (f_policy fr) (f_env fr) g0 (f_V fr) [0..<nS (f_env fr)]"
      and d1: "f_delta fr1 = max_change (f_V fr1) (f_V fr)"
      and p1: "f_policy fr1 = f_policy fr" and e1: "f_env fr1 = f_env fr"
      and l1: "length (f_V fr1) = nS (f_env fr)" by blast
    from a v1 have v1': "inplace_sweep policy0 e0 g0 V0 [0..<nS e0] = f_V fr1" by simp
    from a d1 have d1': "max_change (f_V fr1) V0 = f_delta fr1" by simp
    from body have body': "(if f_delta fr1 < th0 then Some (f_V fr1) else loop policy0 e0 g0 th0 (f_V fr1)) = Some V0'"
      by (simp add: Let_def v1' d1')
    have unfold: "eval_loop g0 th0 fr =
        (if f_delta fr1 < th0 then Some (Inr fr1) else eval_loop g0 th0 fr1)"
      by (subst eval_loop.simps) (simp add: one)
    show "\<exists>fr'. eval_loop g0 th0 fr = Some (Inr fr') \<and> f_V fr' = V0'"
    proof (cases "f_delta fr1 < th0")
      case True
      with body' unfold show ?thesis by simp
    next
      case False
      with body' have "loop policy0 e0 g0 th0 (f_V fr1) = Some V0'" by simp
      from IH [OF this, rule_format, of fr1] a p1 e1 l1
      have "\<exists>fr'. eval_loop g0 th0 fr1 = Some (Inr fr') \<and> f_V fr' = V0'" by simp
      with unfold False show ?thesis by simp
    qed
  qed
qed

lemma well_formed_chain3: "well_formed chain3"
  unfolding well_formed_def
  by (simp add: chain3_def lookup_P_def numeral_3_eq_3 less_Suc_eq)


text \<open>
  Claim C1, amended. On a well-formed environment and a policy array of shape \<open>[nS, nA]\<close>,
  \<^verbatim>\<open>policy_eval\<close> equals the in-place evaluator as a function of
  \<open>(policy, env, discount_factor, theta)\<close>: both return the same array, or neither returns.
\<close>

theorem evaluate_is_in_place:
  assumes wf: "well_formed e" and sh: "policy_shape policy e"
  shows "value_of (policy_eval policy e discount_factor theta) =
         map_option Inr (inplace_evaluate policy e discount_factor theta)"
proof -
  let ?init = "\<lparr>f_policy = policy, f_env = e, f_V = replicate (nS e) 0, f_delta = 0\<rparr>"
  show ?thesis
  proof (cases "eval_loop discount_factor theta ?init")
    case (Some r)
    from eval_loop_imp_inplace [OF Some] wf sh
    obtain fr' where "r = Inr fr'"
      "inplace_loop policy e discount_factor theta (replicate (nS e) 0) = Some (f_V fr')" by auto
    with Some show ?thesis
      by (simp add: policy_eval_def inplace_evaluate_def value_of_def)
  next
    case None
    have "inplace_loop policy e discount_factor theta (replicate (nS e) 0) = None"
    proof (rule ccontr)
      assume "inplace_loop policy e discount_factor theta (replicate (nS e) 0) \<noteq> None"
      then obtain V' where "inplace_loop policy e discount_factor theta (replicate (nS e) 0) = Some V'"
        by auto
      from inplace_imp_eval_loop [OF this, rule_format, of ?init] wf sh None
      show False by simp
    qed
    with None show ?thesis
      by (simp add: policy_eval_def inplace_evaluate_def value_of_def)
  qed
qed

theorem evaluate_is_in_place_witness:
  "well_formed chain3 \<and> policy_shape [[1], [1], [1]] chain3 \<and>
   value_of (policy_eval [[1], [1], [1]] chain3 1 (1 / 100000)) =
     map_option Inr (inplace_evaluate [[1], [1], [1]] chain3 1 (1 / 100000)) \<and>
   inplace_evaluate [[1], [1], [1]] chain3 1 (1 / 100000) = Some [0, - 1, - 2]"
proof -
  have sh: "policy_shape [[1], [1], [1]] chain3"
    by (simp add: policy_shape_def chain3_def)
  have v: "inplace_evaluate [[1], [1], [1]] chain3 1 (1 / 100000) = Some [0, - 1, - 2]"
    by code_simp
  from evaluate_is_in_place [OF well_formed_chain3 sh, of 1 "1 / 100000"] well_formed_chain3 sh v
  show ?thesis by simp
qed



section \<open>The grid scenario\<close>

subsection \<open>The environment and the backups on it\<close>

lemma nS_grid [simp]: "nS (gridworld t) = 16" and nA_grid [simp]: "nA (gridworld t) = 4"
  by (simp_all add: gridworld_def)

lemma lookup_P_grid:
  "s < 16 \<Longrightarrow> a < 4 \<Longrightarrow>
     lookup_P (gridworld t) s a =
       Inr (if t s then [(1, int s, 0, True)] else [(1, int (move s a), - 1, t (move s a))])"
  by (simp add: lookup_P_def gridworld_def)

lemma move_less: "s < 16 \<Longrightarrow> move s a < 16"
  unfolding move_def by (simp split: if_splits) presburger

lemma well_formed_grid: "well_formed (gridworld t)"
  unfolding well_formed_def by (auto simp: lookup_P_grid move_less)

lemma action_value_grid:
  "s < 16 \<Longrightarrow> a < 4 \<Longrightarrow>
     action_value (gridworld t) g V s a = (if t s then g * V ! s else - 1 + g * V ! move s a)"
  by (simp add: action_value_def transitions_def lookup_P_grid expected_return_def)

lemma upt_4: "[0..<4] = [0, 1, 2, 3]"
  by (simp add: upt_rec)

lemma full_backup_grid:
  assumes "s < 16" "length (policy ! s) = 4"
  shows "full_backup policy (gridworld t) 1 V s =
     (if t s then (policy ! s ! 0 + policy ! s ! 1 + policy ! s ! 2 + policy ! s ! 3) * V ! s
      else policy ! s ! 0 * (- 1 + V ! move s 0) + policy ! s ! 1 * (- 1 + V ! move s 1) +
           policy ! s ! 2 * (- 1 + V ! move s 2) + policy ! s ! 3 * (- 1 + V ! move s 3))"
  using assms
  by (simp add: full_backup_def upt_4 transitions_def lookup_P_grid expected_return_def algebra_simps)

subsection \<open>From the loops of the program to sweeps of arrays\<close>

text \<open>
  On a well-formed environment the loop of \<^verbatim>\<open>policy_eval\<close> and the in-place reference loop
  return the same arrays, so what follows reasons about the reference loop.
\<close>

lemma policy_eval_inplace:
  assumes "well_formed e" "policy_shape policy e"
    and "policy_eval policy e g th = Some (Inr fr)"
  shows "inplace_evaluate policy e g th = Some (f_V fr)"
  using eval_loop_imp_inplace [OF assms(3) [unfolded policy_eval_def]] assms(1,2)
  by (simp add: inplace_evaluate_def)

lemma inplace_policy_eval:
  assumes "well_formed e" "policy_shape policy e"
    and "inplace_evaluate policy e g th = Some V'"
  obtains fr where "policy_eval policy e g th = Some (Inr fr)" and "f_V fr = V'"
proof -
  from inplace_imp_eval_loop [OF assms(3) [unfolded inplace_evaluate_def], rule_format,
      of "\<lparr>f_policy = policy, f_env = e, f_V = replicate (nS e) 0, f_delta = 0\<rparr>"] assms(1,2)
  obtain fr where "eval_loop g th \<lparr>f_policy = policy, f_env = e, f_V = replicate (nS e) 0, f_delta = 0\<rparr> = Some (Inr fr)"
    and "f_V fr = V'" by auto
  with that show ?thesis by (simp add: policy_eval_def)
qed

text \<open>The array a returning in-place loop returns is a sweep of an array reachable from the start.\<close>

lemma inplace_loop_last_sweep:
  assumes run: "inplace_loop policy e g th V = Some V'"
    and inv: "Q V"
    and step: "\<And>W. Q W \<Longrightarrow> Q (inplace_sweep policy e g W [0..<nS e])"
  shows "\<exists>W. Q W \<and> V' = inplace_sweep policy e g W [0..<nS e] \<and> max_change V' W < th"
proof -
  have "policy = policy \<and> e = e \<and> g = g \<and> th = th \<longrightarrow> Q V \<longrightarrow>
           (\<exists>W. Q W \<and> V' = inplace_sweep policy e g W [0..<nS e] \<and> max_change V' W < th)"
  proof (rule inplace_loop.raw_induct [where P = "\<lambda>policy' e' g' th' V V'.
           policy' = policy \<and> e' = e \<and> g' = g \<and> th' = th \<longrightarrow> Q V \<longrightarrow>
           (\<exists>W. Q W \<and> V' = inplace_sweep policy e g W [0..<nS e] \<and> max_change V' W < th)",
         OF _ run])
    fix loop policy0 e0 g0 th0 V0 V0'
    assume IH: "\<And>policy' e' g' th' V V'. loop policy' e' g' th' V = Some V' \<Longrightarrow>
           policy' = policy \<and> e' = e \<and> g' = g \<and> th' = th \<longrightarrow> Q V \<longrightarrow>
           (\<exists>W. Q W \<and> V' = inplace_sweep policy e g W [0..<nS e] \<and> max_change V' W < th)"
      and body: "(let V_new = inplace_sweep policy0 e0 g0 V0 [0..<nS e0] in
          if max_change V_new V0 < th0 then Some V_new else loop policy0 e0 g0 th0 V_new) = Some V0'"
    show "policy0 = policy \<and> e0 = e \<and> g0 = g \<and> th0 = th \<longrightarrow> Q V0 \<longrightarrow>
           (\<exists>W. Q W \<and> V0' = inplace_sweep policy e g W [0..<nS e] \<and> max_change V0' W < th)"
    proof (intro impI)
      assume eq: "policy0 = policy \<and> e0 = e \<and> g0 = g \<and> th0 = th" and q: "Q V0"
      let ?W = "inplace_sweep policy e g V0 [0..<nS e]"
      from eq have eqs: "policy0 = policy" "e0 = e" "g0 = g" "th0 = th" by simp_all
      from body have body': "(if max_change ?W V0 < th then Some ?W else loop policy e g th ?W) = Some V0'"
        unfolding eqs by (simp add: Let_def)
      show "\<exists>W. Q W \<and> V0' = inplace_sweep policy e g W [0..<nS e] \<and> max_change V0' W < th"
      proof (cases "max_change ?W V0 < th")
        case True
        with body' have "V0' = ?W" by simp
        with True q show ?thesis by blast
      next
        case False
        with body' have "loop policy e g th ?W = Some V0'" by simp
        from IH [OF this] step [OF q] show ?thesis by blast
      qed
    qed
  qed
  with inv show ?thesis by blast
qed

text \<open>A property that every single update keeps is kept by a sweep.\<close>

lemma inplace_sweep_invariant:
  assumes "Q V" and "\<And>W s. Q W \<Longrightarrow> s \<in> set ss \<Longrightarrow> Q (W[s := full_backup policy e g W s])"
  shows "Q (inplace_sweep policy e g V ss)"
  using assms
proof (induction ss arbitrary: V)
  case Nil
  then show ?case by simp
next
  case (Cons s ss)
  have "Q (V[s := full_backup policy e g V s])" using Cons.prems by simp
  then show ?case using Cons.prems(2) by (simp add: Cons.IH)
qed

lemma length_inplace_sweep [simp]: "length (inplace_sweep policy e g V ss) = length V"
  by (induction ss arbitrary: V) simp_all

text \<open>
  Each entry of the swept array is the backup of its state over the array in which the
  states before it are already new and the others still old.
\<close>

lemma inplace_sweep_from:
  assumes "length V = n" "i \<le> n"
  shows "(\<forall>t<i. inplace_sweep policy e g V [i..<n] ! t = V ! t) \<and>
         (\<forall>s. i \<le> s \<and> s < n \<longrightarrow>
            inplace_sweep policy e g V [i..<n] ! s =
            full_backup policy e g (take s (inplace_sweep policy e g V [i..<n]) @ drop s V) s)"
  using assms
proof (induction "n - i" arbitrary: i V)
  case 0
  then show ?case by simp
next
  case (Suc d)
  then have i: "i < n" by simp
  let ?V1 = "V[i := full_backup policy e g V i]"
  let ?V' = "inplace_sweep policy e g ?V1 [Suc i..<n]"
  have unfold: "inplace_sweep policy e g V [i..<n] = ?V'"
    using i by (simp add: upt_conv_Cons)
  have d: "d = n - Suc i" using Suc.hyps(2) by simp
  have l1: "length ?V1 = n" using Suc.prems by simp
  have i1: "Suc i \<le> n" using i by simp
  note IH = Suc.hyps(1) [OF d l1 i1]
  have low: "\<forall>t<i. ?V' ! t = V ! t" using IH by simp
  have at: "?V' ! i = full_backup policy e g V i" using IH i Suc.prems(1) by simp
  have tk: "take i ?V' = take i V"
    using low Suc.prems(1) i by (intro nth_take_lemma) simp_all
  have here: "?V' ! i = full_backup policy e g (take i ?V' @ drop i V) i"
    using at tk by simp
  have above: "\<forall>s. Suc i \<le> s \<and> s < n \<longrightarrow>
          ?V' ! s = full_backup policy e g (take s ?V' @ drop s V) s"
  proof (intro allI impI)
    fix s assume s: "Suc i \<le> s \<and> s < n"
    then have "drop s ?V1 = drop s V" by simp
    with IH s show "?V' ! s = full_backup policy e g (take s ?V' @ drop s V) s"
      by simp
  qed
  have "\<forall>s. i \<le> s \<and> s < n \<longrightarrow> ?V' ! s = full_backup policy e g (take s ?V' @ drop s V) s"
  proof (intro allI impI)
    fix s assume "i \<le> s \<and> s < n"
    then consider "s = i" | "Suc i \<le> s \<and> s < n" by linarith
    then show "?V' ! s = full_backup policy e g (take s ?V' @ drop s V) s"
      using here above by cases simp_all
  qed
  with low show ?case unfolding unfold by simp
qed

lemma inplace_sweep_nth:
  assumes "length V = n" "s < n"
  shows "inplace_sweep policy e g V [0..<n] ! s =
         full_backup policy e g (take s (inplace_sweep policy e g V [0..<n]) @ drop s V) s"
  using inplace_sweep_from [OF assms(1), of 0 policy e g] assms(2) by simp

lemma mixed_nth:
  assumes "length V' = n" "length V = n" "t < n"
  shows "(take s V' @ drop s V) ! t = (if t < s then V' ! t else V ! t)"
  using assms by (simp add: nth_append min_def)

subsection \<open>Rounds of the outer loop\<close>

lemma greedy_row_one_hot:
  assumes "greedy_row e g V s row"
  obtains a where "a < nA e" and "row = map (\<lambda>j. if j = a then 1 else 0) [0..<nA e]"
  using assms unfolding greedy_row_def np_eye_row_def by (auto split: if_splits)

lemma improve_round_effect:
  assumes "improve_round g p e = Some (Inr st')"
  obtains fr where "policy_eval p e 1 (1 / 100000) = Some (Inr fr)"
    and "g_V st' = f_V fr" and "g_env st' = e" and "length (g_policy st') = length p"
    and "\<forall>s<nS e. s < length p \<and> greedy_row e g (f_V fr) s (g_policy st' ! s)"
    and "g_policy_stable st' \<longleftrightarrow> (\<forall>s<nS e. np_argmax (p ! s) = np_argmax (g_policy st' ! s))"
proof -
  from assms obtain fr where ev: "policy_eval p e 1 (1 / 100000) = Some (Inr fr)"
    and imp: "improve_states g
                \<lparr>g_policy = f_policy fr, g_env = f_env fr, g_V = f_V fr, g_policy_stable = True\<rparr>
                [0..<nS (f_env fr)] = Inr st'"
    by (auto simp: improve_round_def split: option.splits sum.splits)
  from policy_eval_frame [OF ev] have fr: "f_policy fr = p" "f_env fr = e" by simp_all
  note eff = improve_states_effect [OF imp distinct_upt]
  show ?thesis
  proof (rule that [OF ev])
    show "g_V st' = f_V fr" "g_env st' = e" "length (g_policy st') = length p"
      using eff fr by simp_all
    show "\<forall>s<nS e. s < length p \<and> greedy_row e g (f_V fr) s (g_policy st' ! s)"
      using eff fr by simp
    show "g_policy_stable st' \<longleftrightarrow> (\<forall>s<nS e. np_argmax (p ! s) = np_argmax (g_policy st' ! s))"
      using eff fr by auto
  qed
qed

text \<open>The frame the outer loop returns is the frame of a stable round on a policy it reached.\<close>

lemma improvement_loop_last_round:
  assumes run: "improvement_loop g policy e = Some (Inr st)"
    and inv: "Q policy"
    and step: "\<And>p st'. Q p \<Longrightarrow> improve_round g p e = Some (Inr st') \<Longrightarrow> Q (g_policy st')"
  shows "\<exists>p. Q p \<and> improve_round g p e = Some (Inr st) \<and> g_policy_stable st"
proof -
  have "g = g \<and> e = e \<longrightarrow> Q policy \<longrightarrow>
          (\<forall>st'. (Inr st :: error + improve_frame) = Inr st' \<longrightarrow>
             (\<exists>p. Q p \<and> improve_round g p e = Some (Inr st') \<and> g_policy_stable st'))"
  proof (rule improvement_loop.raw_induct [where P = "\<lambda>g' policy e' r.
          g' = g \<and> e' = e \<longrightarrow> Q policy \<longrightarrow>
          (\<forall>st. r = Inr st \<longrightarrow>
             (\<exists>p. Q p \<and> improve_round g p e = Some (Inr st) \<and> g_policy_stable st))", OF _ run])
    fix loop g0 policy0 e0 r0
    assume IH: "\<And>g' policy e' r. loop g' policy e' = Some r \<Longrightarrow>
          g' = g \<and> e' = e \<longrightarrow> Q policy \<longrightarrow>
          (\<forall>st. r = Inr st \<longrightarrow>
             (\<exists>p. Q p \<and> improve_round g p e = Some (Inr st) \<and> g_policy_stable st))"
      and body: "(case improve_round g0 policy0 e0 of None \<Rightarrow> None
          | Some (Inl err) \<Rightarrow> Some (Inl err)
          | Some (Inr st) \<Rightarrow>
              if g_policy_stable st then Some (Inr st) else loop g0 (g_policy st) (g_env st)) = Some r0"
    show "g0 = g \<and> e0 = e \<longrightarrow> Q policy0 \<longrightarrow>
          (\<forall>st. r0 = Inr st \<longrightarrow>
             (\<exists>p. Q p \<and> improve_round g p e = Some (Inr st) \<and> g_policy_stable st))"
    proof (intro impI allI)
      fix st0
      assume eq: "g0 = g \<and> e0 = e" and q: "Q policy0" and r0: "r0 = Inr st0"
      from eq have eqs: "g0 = g" "e0 = e" by simp_all
      from body r0 obtain st1 where round: "improve_round g policy0 e = Some (Inr st1)"
        and rest: "(if g_policy_stable st1 then Some (Inr st1) else loop g (g_policy st1) (g_env st1)) = Some (Inr st0)"
        unfolding eqs by (auto split: option.splits sum.splits)
      show "\<exists>p. Q p \<and> improve_round g p e = Some (Inr st0) \<and> g_policy_stable st0"
      proof (cases "g_policy_stable st1")
        case True
        with rest have "st1 = st0" by simp
        with round q True show ?thesis by blast
      next
        case False
        from improve_round_effect [OF round] have env: "g_env st1 = e" by blast
        from rest False env have "loop g (g_policy st1) e = Some (Inr st0)" by simp
        from IH [OF this] step [OF q round] show ?thesis by blast
      qed
    qed
  qed
  with inv show ?thesis by blast
qed

lemma one_hot_stochastic:
  assumes "a < n"
  shows "(\<forall>x\<in>set (map (\<lambda>j. if j = a then 1 else (0::real)) [0..<n]). 0 \<le> x) \<and>
         sum_list (map (\<lambda>j. if j = a then 1 else (0::real)) [0..<n]) = 1"
  using one_hot_sum [OF assms] by auto

lemma stochastic_round:
  assumes "stochastic e p" and "improve_round g p e = Some (Inr st')"
  shows "stochastic e (g_policy st')"
proof -
  from improve_round_effect [OF assms(2)]
  obtain fr :: eval_frame where len: "length (g_policy st') = length p"
    and rows: "\<forall>s<nS e. s < length p \<and> greedy_row e g (f_V fr) s (g_policy st' ! s)" by blast
  from assms(1) have lp: "length p = nS e" by (simp add: stochastic_def policy_shape_def)
  have "\<forall>row\<in>set (g_policy st'). length row = nA e \<and> (\<forall>x\<in>set row. 0 \<le> x) \<and> sum_list row = 1"
  proof
    fix row assume "row \<in> set (g_policy st')"
    then obtain s where s: "s < length (g_policy st')" and row: "row = g_policy st' ! s"
      by (auto simp: in_set_conv_nth)
    from s len lp rows have "greedy_row e g (f_V fr) s row" unfolding row by simp
    then obtain a where a: "a < nA e" and oh: "row = map (\<lambda>j. if j = a then 1 else 0) [0..<nA e]"
      by (rule greedy_row_one_hot)
    from one_hot_stochastic [OF a] show "length row = nA e \<and> (\<forall>x\<in>set row. 0 \<le> x) \<and> sum_list row = 1"
      unfolding oh by simp
  qed
  with len lp show ?thesis by (simp add: stochastic_def policy_shape_def)
qed

lemma stochastic_uniform:
  assumes "0 < nA e"
  shows "stochastic e (replicate (nS e) (replicate (nA e) (1 / real (nA e))))"
  using assms by (auto simp: stochastic_def policy_shape_def sum_list_replicate)

lemma row4:
  assumes "length row = 4"
  obtains a b c d :: real where "row = [a, b, c, d]"
  using assms by (auto simp: numeral_eq_Suc length_Suc_conv)

lemma stochastic_row_grid:
  assumes "stochastic (gridworld t) p" "s < 16"
  shows "length (p ! s) = 4" "0 \<le> p ! s ! 0" "0 \<le> p ! s ! 1" "0 \<le> p ! s ! 2" "0 \<le> p ! s ! 3"
    "p ! s ! 0 + p ! s ! 1 + p ! s ! 2 + p ! s ! 3 = 1"
proof -
  from assms have mem: "p ! s \<in> set p" by (simp add: stochastic_def policy_shape_def)
  with assms(1) have len: "length (p ! s) = 4" and nn: "\<forall>x\<in>set (p ! s). 0 \<le> x"
    and sm: "sum_list (p ! s) = 1"
    by (simp_all add: stochastic_def policy_shape_def)
  from len obtain a b c d where row: "p ! s = [a, b, c, d]" by (rule row4)
  show "length (p ! s) = 4" by (rule len)
  show "0 \<le> p ! s ! 0" "0 \<le> p ! s ! 1" "0 \<le> p ! s ! 2" "0 \<le> p ! s ! 3"
    using nn unfolding row by simp_all
  show "p ! s ! 0 + p ! s ! 1 + p ! s ! 2 + p ! s ! 3 = 1"
    using sm unfolding row by simp
qed

subsection \<open>A single terminal corner\<close>

text \<open>
  All rewards are at most 0, so the sweeps keep every entry at most 0, and the entry of a
  state that is not terminal is then at most \<open>-1\<close> after any sweep. The policies of the outer
  loop are the uniform one and the one-hot ones, all of them probability distributions.
\<close>

lemma backup_nonpositive:
  assumes st: "stochastic (gridworld t) p" and s: "s < 16" and V: "nonpositive V"
  shows "full_backup p (gridworld t) 1 V s \<le> 0"
    and "\<not> t s \<Longrightarrow> full_backup p (gridworld t) 1 V s \<le> - 1"
proof -
  note row = stochastic_row_grid [OF st s]
  from V s have m: "V ! s \<le> 0" "V ! move s 0 \<le> 0" "V ! move s 1 \<le> 0" "V ! move s 2 \<le> 0" "V ! move s 3 \<le> 0"
    by (simp_all add: nonpositive_def move_less)
  have t0: "p ! s ! 0 * (- 1 + V ! move s 0) \<le> p ! s ! 0 * (- 1)"
    using row(2) m(2) by (intro mult_left_mono) simp_all
  have t1: "p ! s ! 1 * (- 1 + V ! move s 1) \<le> p ! s ! 1 * (- 1)"
    using row(3) m(3) by (intro mult_left_mono) simp_all
  have t2: "p ! s ! 2 * (- 1 + V ! move s 2) \<le> p ! s ! 2 * (- 1)"
    using row(4) m(4) by (intro mult_left_mono) simp_all
  have t3: "p ! s ! 3 * (- 1 + V ! move s 3) \<le> p ! s ! 3 * (- 1)"
    using row(5) m(5) by (intro mult_left_mono) simp_all
  have nt: "\<not> t s \<Longrightarrow> full_backup p (gridworld t) 1 V s \<le> - 1"
    using t0 t1 t2 t3 row(6) by (simp add: full_backup_grid [OF s row(1)])
  show "\<not> t s \<Longrightarrow> full_backup p (gridworld t) 1 V s \<le> - 1" by (rule nt)
  show "full_backup p (gridworld t) 1 V s \<le> 0"
  proof (cases "t s")
    case True
    then show ?thesis using m(1) row(6) by (simp add: full_backup_grid [OF s row(1)])
  next
    case False
    from nt [OF this] show ?thesis by simp
  qed
qed

lemma sweep_nonpositive:
  assumes st: "stochastic (gridworld t) p" and V: "nonpositive V"
  shows "nonpositive (inplace_sweep p (gridworld t) 1 V [0..<16])"
proof (rule inplace_sweep_invariant [where Q = nonpositive, OF V])
  fix W s assume W: "nonpositive W" and "s \<in> set [0..<16]"
  then have s: "s < 16" by simp
  from backup_nonpositive(1) [OF st s W] W s
  show "nonpositive (W[s := full_backup p (gridworld t) 1 W s])"
    by (auto simp: nonpositive_def nth_list_update)
qed

lemma evaluation_below_minus_one:
  assumes st: "stochastic (gridworld t) p"
    and ev: "policy_eval p (gridworld t) 1 th = Some (Inr fr)"
    and s: "s < 16" and nt: "\<not> t s"
  shows "f_V fr ! s \<le> - 1"
proof -
  from st have sh: "policy_shape p (gridworld t)" by (simp add: stochastic_def)
  from policy_eval_inplace [OF well_formed_grid sh ev]
  have "inplace_loop p (gridworld t) 1 th (replicate 16 0) = Some (f_V fr)"
    by (simp add: inplace_evaluate_def)
  from inplace_loop_last_sweep [where Q = nonpositive, OF this]
  obtain W where W: "nonpositive W" and V': "f_V fr = inplace_sweep p (gridworld t) 1 W [0..<16]"
    using sweep_nonpositive [OF st] by (auto simp: nonpositive_def)
  let ?V' = "inplace_sweep p (gridworld t) 1 W [0..<16]"
  from sweep_nonpositive [OF st W] have V'n: "nonpositive ?V'" .
  from W have lW: "length W = 16" by (simp add: nonpositive_def)
  have "nonpositive (take s ?V' @ drop s W)"
    unfolding nonpositive_def
  proof (intro conjI allI impI)
    show "length (take s ?V' @ drop s W) = 16" using lW s by simp
    fix u :: nat assume u: "u < 16"
    have "(take s ?V' @ drop s W) ! u = (if u < s then ?V' ! u else W ! u)"
      using lW u by (intro mixed_nth [where n = 16]) simp_all
    with W V'n u show "(take s ?V' @ drop s W) ! u \<le> 0" by (simp add: nonpositive_def)
  qed
  from backup_nonpositive(2) [OF st s this nt]
  have "full_backup p (gridworld t) 1 (take s ?V' @ drop s W) s \<le> - 1" .
  with inplace_sweep_nth [OF lW s, of p "gridworld t" 1] show ?thesis
    unfolding V' by simp
qed

lemma solve_below_minus_one:
  assumes run: "policy_improvement (gridworld t) f g = Some (Inr st)"
    and s: "s < 16" and nt: "\<not> t s"
  shows "g_V st ! s \<le> - 1"
proof -
  let ?G = "gridworld t"
  have start: "stochastic ?G (replicate (nS ?G) (replicate (nA ?G) (1 / real (nA ?G))))"
    by (rule stochastic_uniform) simp
  from run have "improvement_loop g (replicate (nS ?G) (replicate (nA ?G) (1 / real (nA ?G)))) ?G = Some (Inr st)"
    by (simp add: policy_improvement_def)
  moreover have "\<And>p st'. stochastic ?G p \<Longrightarrow> improve_round g p ?G = Some (Inr st') \<Longrightarrow>
      stochastic ?G (g_policy st')"
    by (rule stochastic_round)
  ultimately have "\<exists>p. stochastic ?G p \<and> improve_round g p ?G = Some (Inr st) \<and> g_policy_stable st"
    using start by (intro improvement_loop_last_round [where Q = "stochastic ?G"])
  then obtain p where p: "stochastic ?G p" and round: "improve_round g p ?G = Some (Inr st)" by blast
  from improve_round_effect [OF round]
  obtain fr where ev: "policy_eval p ?G 1 (1 / 100000) = Some (Inr fr)" and V: "g_V st = f_V fr"
    by blast
  from evaluation_below_minus_one [OF p ev s nt] V show ?thesis by simp
qed

text \<open>
  Claim C6 puts the expected array on a grid with a single terminal corner. On that grid
  (state 0 terminal) the outer loop cannot return an array within the tolerance of
  \<open>expected_v\<close>: every array it returns has an entry at most \<open>-1\<close> at state 15, which is not
  terminal there, while \<open>expected_v\<close> has 0 at state 15.
\<close>

theorem single_terminal_corner_grid_differs:
  "\<not> solve_matches (returned (policy_improvement (gridworld one_corner) policy_eval 1)) expected_v"
proof
  assume m: "solve_matches (returned (policy_improvement (gridworld one_corner) policy_eval 1)) expected_v"
  then obtain p v where r: "returned (policy_improvement (gridworld one_corner) policy_eval 1) = Some (Inr (p, v))"
    and ae: "almost_equal v expected_v"
    by (auto simp: solve_matches_def split: option.splits sum.splits)
  from r obtain st where run: "policy_improvement (gridworld one_corner) policy_eval 1 = Some (Inr st)"
    and v: "g_V st = v" by (rule returned_Inr)
  have "g_V st ! 15 \<le> - 1"
    by (rule solve_below_minus_one [OF run]) (simp_all add: one_corner_def)
  moreover from ae have "close_enough (v ! 15) (expected_v ! 15)"
    unfolding almost_equal_def by (rule list_all2_nthD2) (simp add: expected_v_def)
  then have "\<bar>v ! 15\<bar> < 3 / 200" by (simp add: close_enough_def expected_v_def)
  ultimately show False using v by simp
qed

subsection \<open>Two terminal corners: evaluating a policy that steps towards a corner\<close>

text \<open>
  For a policy whose rows are unit rows and whose move from every other state leads to a
  state one step closer to a terminal corner, the sweeps from zeros make the states at
  distance \<open>k\<close> exact after \<open>k\<close> sweeps, so the fourth sweep changes nothing and the loop
  leaves. Whenever it leaves, the array is within \<open>3 * theta\<close> of \<open>expected_v\<close>; all entries
  are integers, so it is \<open>expected_v\<close>.
\<close>

lemma upt_16: "[0..<16] = [0, 1, 2, 3, 4, 5, 6, 7, 8, 9, 10, 11, 12, 13, 14, 15]"
  by (simp add: upt_rec)

lemma all_less_16: "(\<forall>s<16. Q s) \<longleftrightarrow> (\<forall>s\<in>set [0..<16]. Q (s::nat))"
  by auto

lemma expected_v_range: "\<forall>s<16. - 3 \<le> expected_v ! s \<and> expected_v ! s \<le> 0 \<and> expected_v ! s \<in> \<int>"
  unfolding all_less_16 upt_16 by (simp add: expected_v_def)

lemma expected_v_terminal: "s < 16 \<Longrightarrow> two_corners s \<Longrightarrow> expected_v ! s = 0"
  by (auto simp: two_corners_def expected_v_def)

lemma length_expected_v [simp]: "length expected_v = 16"
  by (simp add: expected_v_def)

lemma inplace_loop_terminates:
  assumes "max_change (((\<lambda>W. inplace_sweep p e g W [0..<nS e]) ^^ Suc k) V)
                      (((\<lambda>W. inplace_sweep p e g W [0..<nS e]) ^^ k) V) < th"
  shows "\<exists>V'. inplace_loop p e g th V = Some V'"
  using assms
proof (induction k arbitrary: V)
  case 0
  then show ?case by (subst inplace_loop.simps) (simp add: Let_def)
next
  case (Suc k)
  let ?T = "\<lambda>W. inplace_sweep p e g W [0..<nS e]"
  show ?case
  proof (cases "max_change (?T V) V < th")
    case True
    then show ?thesis by (subst inplace_loop.simps) (simp add: Let_def)
  next
    case False
    from Suc.prems have "max_change ((?T ^^ Suc k) (?T V)) ((?T ^^ k) (?T V)) < th"
      by (simp only: funpow_Suc_right o_apply)
    from Suc.IH [OF this] obtain V' where "inplace_loop p e g th (?T V) = Some V'" ..
    with False show ?thesis by (subst inplace_loop.simps) (simp add: Let_def)
  qed
qed

lemma unit_row_simps:
  "length (unit_row a) = 4"
  "a < 4 \<Longrightarrow> unit_row a ! 0 + unit_row a ! 1 + unit_row a ! 2 + unit_row a ! 3 = 1"
  "a < 4 \<Longrightarrow> unit_row a ! 0 * x0 + unit_row a ! 1 * x1 + unit_row a ! 2 * x2 + unit_row a ! 3 * x3
      = [x0, x1, x2, x3] ! a"
proof -
  show "length (unit_row a) = 4" by (simp add: unit_row_def)
  assume "a < 4"
  then consider "a = 0" | "a = 1" | "a = 2" | "a = 3" by linarith
  then show "unit_row a ! 0 + unit_row a ! 1 + unit_row a ! 2 + unit_row a ! 3 = 1"
    and "unit_row a ! 0 * x0 + unit_row a ! 1 * x1 + unit_row a ! 2 * x2 + unit_row a ! 3 * x3
      = [x0, x1, x2, x3] ! a"
    by (cases; simp add: unit_row_def upt_4)+
qed

lemma backup_unit_row:
  assumes s: "s < 16" and row: "p ! s = unit_row a" and a: "a < 4"
  shows "full_backup p (gridworld t) 1 V s = (if t s then V ! s else - 1 + V ! move s a)"
proof -
  have len: "length (p ! s) = 4" by (simp add: row unit_row_simps)
  from a consider "a = 0" | "a = 1" | "a = 2" | "a = 3" by linarith
  then have "[- 1 + V ! move s 0, - 1 + V ! move s 1, - 1 + V ! move s 2, - 1 + V ! move s 3] ! a
      = - 1 + V ! move s a"
    by cases simp_all
  then show ?thesis
    unfolding full_backup_grid [OF s len] row
    by (simp only: unit_row_simps(2,3) [OF a]) simp
qed

lemma backup_descending:
  assumes "descending p" "s < 16"
  obtains a where "a < 4"
    and "\<And>V. full_backup p (gridworld two_corners) 1 V s =
               (if two_corners s then V ! s else - 1 + V ! move s a)"
    and "\<not> two_corners s \<Longrightarrow> expected_v ! move s a = expected_v ! s + 1"
proof -
  from assms obtain a where a: "a < 4" and row: "p ! s = unit_row a"
    and dn: "\<not> two_corners s \<longrightarrow> expected_v ! move s a = expected_v ! s + 1"
    unfolding descending_def by blast
  show ?thesis
    using a backup_unit_row [OF assms(2) row a] dn by (intro that [of a]) simp_all
qed

lemma update_exact:
  assumes p: "descending p" and W: "exact_upto k W" and s: "s < 16"
  shows "exact_upto k (W[s := full_backup p (gridworld two_corners) 1 W s])"
proof -
  from backup_descending [OF p s] obtain a where a: "a < 4"
    and bk: "\<And>V. full_backup p (gridworld two_corners) 1 V s =
               (if two_corners s then V ! s else - 1 + V ! move s a)"
    and dn: "\<not> two_corners s \<Longrightarrow> expected_v ! move s a = expected_v ! s + 1" by blast
  from W have len: "length W = 16" by (simp add: exact_upto_def)
  have new: "- real k \<le> expected_v ! s \<Longrightarrow> full_backup p (gridworld two_corners) 1 W s = expected_v ! s"
  proof -
    assume lev: "- real k \<le> expected_v ! s"
    show ?thesis
    proof (cases "two_corners s")
      case True
      with W s lev show ?thesis by (simp add: bk exact_upto_def)
    next
      case False
      from dn [OF False] lev have "- real k \<le> expected_v ! move s a" by simp
      with W move_less [OF s] have "W ! move s a = expected_v ! move s a"
        by (simp add: exact_upto_def)
      with False dn [OF False] show ?thesis by (simp add: bk)
    qed
  qed
  show ?thesis
    unfolding exact_upto_def
  proof (intro conjI allI impI)
    show "length (W[s := full_backup p (gridworld two_corners) 1 W s]) = 16" using len by simp
    fix u :: nat assume u: "u < 16" and lev: "- real k \<le> expected_v ! u"
    show "W[s := full_backup p (gridworld two_corners) 1 W s] ! u = expected_v ! u"
    proof (cases "u = s")
      case True
      with new lev len s show ?thesis by simp
    next
      case False
      with W u lev show ?thesis by (simp add: exact_upto_def)
    qed
  qed
qed

lemma sweep_exact:
  assumes p: "descending p" and W: "exact_upto k W"
  shows "exact_upto k (inplace_sweep p (gridworld two_corners) 1 W [0..<16])"
proof (rule inplace_sweep_invariant [where Q = "exact_upto k", OF W])
  fix W' s assume "exact_upto k W'" and "s \<in> set [0..<16]"
  then show "exact_upto k (W'[s := full_backup p (gridworld two_corners) 1 W' s])"
    using update_exact [OF p] by simp
qed

lemma mixed_exact:
  assumes "exact_upto k V'" "exact_upto k W"
  shows "exact_upto k (take s V' @ drop s W)"
  unfolding exact_upto_def
proof (intro conjI allI impI)
  from assms have len: "length V' = 16" "length W = 16" by (simp_all add: exact_upto_def)
  then show "length (take s V' @ drop s W) = 16" by simp
  fix u :: nat assume u: "u < 16" and lev: "- real k \<le> expected_v ! u"
  have "(take s V' @ drop s W) ! u = (if u < s then V' ! u else W ! u)"
    using len u by (intro mixed_nth [where n = 16]) simp_all
  with assms u lev show "(take s V' @ drop s W) ! u = expected_v ! u"
    by (simp add: exact_upto_def)
qed

lemma sweep_exact_Suc:
  assumes p: "descending p" and W: "exact_upto k W"
  shows "exact_upto (Suc k) (inplace_sweep p (gridworld two_corners) 1 W [0..<16])"
proof -
  let ?V' = "inplace_sweep p (gridworld two_corners) 1 W [0..<16]"
  from W have len: "length W = 16" by (simp add: exact_upto_def)
  note V' = sweep_exact [OF p W]
  show ?thesis
    unfolding exact_upto_def
  proof (intro conjI allI impI)
    show "length ?V' = 16" using len by simp
    fix s :: nat assume s: "s < 16" and lev: "- real (Suc k) \<le> expected_v ! s"
    let ?M = "take s ?V' @ drop s W"
    note M = mixed_exact [OF V' W, of s]
    from backup_descending [OF p s] obtain a where a: "a < 4"
      and bk: "\<And>V. full_backup p (gridworld two_corners) 1 V s =
               (if two_corners s then V ! s else - 1 + V ! move s a)"
      and dn: "\<not> two_corners s \<Longrightarrow> expected_v ! move s a = expected_v ! s + 1" by blast
    have nth: "?V' ! s = full_backup p (gridworld two_corners) 1 ?M s"
      using len s by (rule inplace_sweep_nth)
    show "?V' ! s = expected_v ! s"
    proof (cases "two_corners s")
      case True
      from expected_v_terminal [OF s True] have "- real k \<le> expected_v ! s" by simp
      with M s have "?M ! s = expected_v ! s" by (simp add: exact_upto_def)
      with True show ?thesis unfolding nth bk by simp
    next
      case False
      from dn [OF False] lev have "- real k \<le> expected_v ! move s a" by simp
      with M move_less [OF s] have "?M ! move s a = expected_v ! move s a"
        by (simp add: exact_upto_def)
      with False dn [OF False] show ?thesis unfolding nth bk by simp
    qed
  qed
qed

lemma exact_upto_3:
  assumes "exact_upto 3 V"
  shows "V = expected_v"
proof (rule nth_equalityI)
  from assms show "length V = length expected_v" by (simp add: exact_upto_def)
  fix s assume "s < length V"
  with assms have s: "s < 16" by (simp add: exact_upto_def)
  with expected_v_range have "- real 3 \<le> expected_v ! s" by simp
  with assms s show "V ! s = expected_v ! s" unfolding exact_upto_def by blast
qed

lemma exact_upto_zeros: "exact_upto 0 (replicate 16 0)"
  unfolding exact_upto_def using expected_v_range by (auto simp: order.antisym)

lemma max_change_same: "max_change V V = 0"
proof -
  have "max_change V V = Max (insert 0 ((\<lambda>s. \<bar>V ! s - V ! s\<bar>) ` {..<length V}))"
    by (rule max_change_Max) simp_all
  also have "insert 0 ((\<lambda>s. \<bar>V ! s - V ! s\<bar>) ` {..<length V}) = {0}" by auto
  finally show ?thesis by simp
qed

lemma descending_terminates:
  assumes p: "descending p" and th: "0 < th"
  shows "\<exists>V'. inplace_loop p (gridworld two_corners) 1 th (replicate 16 0) = Some V'"
proof -
  let ?T = "\<lambda>W. inplace_sweep p (gridworld two_corners) 1 W [0..<16]"
  have e1: "exact_upto 1 (?T (replicate 16 0))"
    using sweep_exact_Suc [OF p exact_upto_zeros] by simp
  have e2: "exact_upto 2 (?T (?T (replicate 16 0)))"
    using sweep_exact_Suc [OF p e1] by (simp add: numeral_2_eq_2)
  have e3: "exact_upto 3 (?T (?T (?T (replicate 16 0))))"
    using sweep_exact_Suc [OF p e2] by (simp add: numeral_3_eq_3 numeral_2_eq_2)
  have e4: "exact_upto 3 (?T (?T (?T (?T (replicate 16 0)))))"
    by (rule sweep_exact [OF p e3])
  have "(?T ^^ 3) (replicate 16 0) = expected_v"
    using exact_upto_3 [OF e3] by (simp add: numeral_3_eq_3)
  moreover have "(?T ^^ Suc 3) (replicate 16 0) = expected_v"
    using exact_upto_3 [OF e4] by (simp add: numeral_3_eq_3)
  ultimately have "max_change ((?T ^^ Suc 3) (replicate 16 0)) ((?T ^^ 3) (replicate 16 0)) < th"
    using th by (simp only: max_change_same)
  then have "max_change (((\<lambda>W. inplace_sweep p (gridworld two_corners) 1 W [0..<nS (gridworld two_corners)]) ^^ Suc 3) (replicate 16 0))
       (((\<lambda>W. inplace_sweep p (gridworld two_corners) 1 W [0..<nS (gridworld two_corners)]) ^^ 3) (replicate 16 0)) < th"
    by simp
  then show ?thesis by (rule inplace_loop_terminates)
qed

lemma expected_v_zero: "s < 16 \<Longrightarrow> 0 \<le> expected_v ! s \<Longrightarrow> two_corners s"
proof -
  have "\<forall>s<16. 0 \<le> expected_v ! s \<longrightarrow> two_corners s"
    unfolding all_less_16 upt_16 by (simp add: expected_v_def two_corners_def)
  then show "s < 16 \<Longrightarrow> 0 \<le> expected_v ! s \<Longrightarrow> two_corners s" by blast
qed

lemma Ints_close:
  fixes x y :: real
  assumes "x \<in> \<int>" "y \<in> \<int>" "\<bar>x - y\<bar> < 1"
  shows "x = y"
proof -
  from assms(1,2) obtain i j where x: "x = of_int i" and y: "y = of_int j"
    by (auto elim!: Ints_cases)
  from assms(3) have "\<bar>real_of_int (i - j)\<bar> < 1" unfolding x y by simp
  then have "\<bar>i - j\<bar> < 1" by linarith
  then show ?thesis unfolding x y by simp
qed

lemma update_anchored:
  assumes p: "descending p" and W: "anchored W" and s: "s < 16"
  shows "anchored (W[s := full_backup p (gridworld two_corners) 1 W s])"
proof -
  from backup_descending [OF p s] obtain a where a: "a < 4"
    and bk: "\<And>V. full_backup p (gridworld two_corners) 1 V s =
               (if two_corners s then V ! s else - 1 + V ! move s a)" by blast
  from W have len: "length W = 16" and int: "\<forall>u<16. W ! u \<in> \<int>"
    and zero: "\<forall>u<16. two_corners u \<longrightarrow> W ! u = 0"
    by (simp_all add: anchored_def integral_def)
  from int s move_less [OF s] have "full_backup p (gridworld two_corners) 1 W s \<in> \<int>"
    unfolding bk by simp
  moreover from zero s have "two_corners s \<Longrightarrow> full_backup p (gridworld two_corners) 1 W s = 0"
    unfolding bk by simp
  ultimately show ?thesis
    using len int zero s by (auto simp: anchored_def integral_def nth_list_update)
qed

lemma sweep_anchored:
  assumes p: "descending p" and W: "anchored W"
  shows "anchored (inplace_sweep p (gridworld two_corners) 1 W [0..<16])"
proof (rule inplace_sweep_invariant [where Q = anchored, OF W])
  fix W' s assume "anchored W'" and "s \<in> set [0..<16]"
  then show "anchored (W'[s := full_backup p (gridworld two_corners) 1 W' s])"
    using update_anchored [OF p] by simp
qed

lemma max_change_bound:
  assumes "length V' = n" "length W = n" "max_change V' W < th" "u < n"
  shows "\<bar>V' ! u - W ! u\<bar> < th"
proof -
  have "\<bar>V' ! u - W ! u\<bar> \<le> Max (insert 0 ((\<lambda>s. \<bar>V' ! s - W ! s\<bar>) ` {..<n}))"
    using assms(4) by (intro Max_ge) simp_all
  also have "\<dots> = max_change V' W" by (rule max_change_Max [OF assms(1,2), symmetric])
  also note assms(3)
  finally show ?thesis .
qed

lemma descending_result:
  assumes p: "descending p" and th: "0 < th" "th \<le> 1 / 4"
    and run: "inplace_loop p (gridworld two_corners) 1 th (replicate 16 0) = Some V'"
  shows "V' = expected_v"
proof -
  let ?G = "gridworld two_corners"
  have start: "anchored (replicate 16 0)" by (simp add: anchored_def integral_def)
  have "\<exists>W. anchored W \<and> V' = inplace_sweep p ?G 1 W [0..<nS ?G] \<and> max_change V' W < th"
    using run start sweep_anchored [OF p]
    by (intro inplace_loop_last_sweep [where Q = anchored]) simp_all
  then obtain W where W: "anchored W" and V': "V' = inplace_sweep p ?G 1 W [0..<16]"
    and mc: "max_change V' W < th" by auto
  from W have lenW: "length W = 16" by (simp add: anchored_def integral_def)
  from sweep_anchored [OF p W] have aV: "anchored V'" unfolding V' .
  then have lenV: "length V' = 16" by (simp add: anchored_def integral_def)
  have close: "\<bar>V' ! u - W ! u\<bar> < th" if "u < 16" for u
    using lenV lenW mc that by (rule max_change_bound)
  have level: "\<forall>s<16. - real k \<le> expected_v ! s \<longrightarrow> \<bar>V' ! s - expected_v ! s\<bar> \<le> real k * th" for k
  proof (induction k)
    case 0
    show ?case
    proof (intro allI impI)
      fix s :: nat assume s: "s < 16" and "- real 0 \<le> expected_v ! s"
      then have t: "two_corners s" by (intro expected_v_zero) simp_all
      with aV s have "V' ! s = 0" by (simp add: anchored_def)
      with expected_v_terminal [OF s t] show "\<bar>V' ! s - expected_v ! s\<bar> \<le> real 0 * th" by simp
    qed
  next
    case (Suc k)
    show ?case
    proof (intro allI impI)
      fix s :: nat assume s: "s < 16" and lev: "- real (Suc k) \<le> expected_v ! s"
      show "\<bar>V' ! s - expected_v ! s\<bar> \<le> real (Suc k) * th"
      proof (cases "- real k \<le> expected_v ! s")
        case True
        with Suc.IH s have "\<bar>V' ! s - expected_v ! s\<bar> \<le> real k * th" by simp
        also have "\<dots> \<le> real (Suc k) * th" using th(1) by (simp add: algebra_simps)
        finally show ?thesis .
      next
        case False
        then have nt: "\<not> two_corners s" using expected_v_terminal [OF s] by auto
        from backup_descending [OF p s] obtain a where a: "a < 4"
          and bk: "\<And>V. full_backup p ?G 1 V s =
               (if two_corners s then V ! s else - 1 + V ! move s a)"
          and dn: "\<not> two_corners s \<Longrightarrow> expected_v ! move s a = expected_v ! s + 1" by blast
        let ?m = "move s a"
        let ?M = "take s V' @ drop s W"
        have m: "?m < 16" by (rule move_less [OF s])
        have nth: "V' ! s = - 1 + ?M ! ?m"
          unfolding V' using inplace_sweep_nth [OF lenW s, of p ?G 1] nt by (simp add: bk)
        have Mm: "?M ! ?m = (if ?m < s then V' ! ?m else W ! ?m)"
          using lenV lenW m by (rule mixed_nth)
        have near: "\<bar>?M ! ?m - V' ! ?m\<bar> \<le> th"
          using close [OF m] th(1) unfolding Mm by (simp add: abs_minus_commute)
        from dn [OF nt] lev have "- real k \<le> expected_v ! ?m" by simp
        with Suc.IH m have "\<bar>V' ! ?m - expected_v ! ?m\<bar> \<le> real k * th" by simp
        with near have "\<bar>?M ! ?m - expected_v ! ?m\<bar> \<le> real k * th + th" by linarith
        then show ?thesis unfolding nth dn [OF nt] by (simp add: algebra_simps)
      qed
    qed
  qed
  show ?thesis
  proof (rule nth_equalityI)
    show "length V' = length expected_v" using lenV by simp
    fix s assume "s < length V'"
    with lenV have s: "s < 16" by simp
    from expected_v_range s have "- real 3 \<le> expected_v ! s" and ie: "expected_v ! s \<in> \<int>" by simp_all
    with level [of 3] s have "\<bar>V' ! s - expected_v ! s\<bar> \<le> real 3 * th" by blast
    with th(2) have "\<bar>V' ! s - expected_v ! s\<bar> < 1" by simp
    moreover from aV s have "V' ! s \<in> \<int>" by (simp add: anchored_def integral_def)
    ultimately show "V' ! s = expected_v ! s" using ie by (intro Ints_close)
  qed
qed

lemma descending_shape:
  assumes "descending p"
  shows "policy_shape p (gridworld two_corners)"
proof -
  from assms have len: "length p = 16" by (simp add: descending_def)
  have "\<forall>row\<in>set p. length row = 4"
  proof
    fix row assume "row \<in> set p"
    then obtain s where s: "s < 16" and row: "row = p ! s" using len by (auto simp: in_set_conv_nth)
    from assms s obtain a where "p ! s = unit_row a" unfolding descending_def by blast
    then show "length row = 4" unfolding row by (simp add: unit_row_simps)
  qed
  with len show ?thesis by (simp add: policy_shape_def)
qed

lemma descending_evaluation:
  assumes p: "descending p"
  obtains fr where "policy_eval p (gridworld two_corners) 1 (1 / 100000) = Some (Inr fr)"
    and "f_V fr = expected_v"
proof -
  from descending_terminates [OF p, of "1 / 100000"]
  obtain V' where run: "inplace_loop p (gridworld two_corners) 1 (1 / 100000) (replicate 16 0) = Some V'"
    by auto
  from descending_result [OF p _ _ run] have V': "V' = expected_v" by simp
  from run have "inplace_evaluate p (gridworld two_corners) 1 (1 / 100000) = Some V'"
    by (simp add: inplace_evaluate_def)
  from inplace_policy_eval [OF well_formed_grid descending_shape [OF p] this] V' that
  show ?thesis by blast
qed

subsection \<open>Two terminal corners: the greedy rows\<close>

lemma greedy_row_choice:
  assumes V: "length V = 16" and s: "s < 16" and gr: "greedy_row (gridworld t) 1 V s row"
  obtains a where "a < 4" and "row = unit_row a"
    and "\<not> t s \<Longrightarrow> \<forall>b<4. V ! move s b \<le> V ! move s a"
    and "t s \<Longrightarrow> a = 0"
proof -
  let ?G = "gridworld t"
  let ?A = "map (action_value ?G 1 V s) [0..<4]"
  have A: "one_step_lookahead ?G 1 s V = Inr ?A"
    using one_step_lookahead_values [OF well_formed_grid, of s t V 1] s V by simp
  have "?A \<noteq> []" by simp
  from np_argmax_first_max [OF this]
  obtain a where a: "np_argmax ?A = Inr a" "a < length ?A"
    "\<forall>j<length ?A. ?A ! j \<le> ?A ! a" "\<forall>j<a. ?A ! j < ?A ! a" by blast
  from a(2) have a4: "a < 4" by simp
  from greedy_row_argmax [OF gr A a(1)] have row: "row = unit_row a"
    by (simp add: unit_row_def)
  have le: "\<forall>b<4. V ! move s b \<le> V ! move s a" if "\<not> t s"
  proof (intro allI impI)
    fix b :: nat assume b: "b < 4"
    with a(3) have "?A ! b \<le> ?A ! a" by simp
    with b a4 that s show "V ! move s b \<le> V ! move s a"
      by (simp add: action_value_grid)
  qed
  have zero: "a = 0" if "t s"
  proof (rule ccontr)
    assume "a \<noteq> 0"
    then have "0 < a" by simp
    with a(4) have "?A ! 0 < ?A ! a" by blast
    with a4 that s show False by (simp add: action_value_grid)
  qed
  from a4 row le zero show ?thesis by (rule that)
qed

lemma greedy_descends:
  "\<forall>s\<in>set [0..<16]. \<not> two_corners s \<longrightarrow>
     (\<forall>a\<in>set [0..<4]. (\<forall>b\<in>set [0..<4]. expected_v ! move s b \<le> expected_v ! move s a) \<longrightarrow>
        expected_v ! move s a = expected_v ! s + 1)"
  unfolding upt_16 upt_4
  by (simp add: move_def expected_v_def two_corners_def)

subsection \<open>Two terminal corners: evaluating the uniform policy\<close>

text \<open>
  With \<open>w = - v_random\<close>, the expected number of moves of the uniform policy, an array between
  \<open>v_random\<close> and \<open>v_random + M * w\<close> is taken by a sweep to one between \<open>v_random\<close> and
  \<open>v_random + (21/22) * M * w\<close>, because \<open>w \<le> 22\<close> and \<open>w\<close> drops by one on average along a
  move. So the change of a sweep falls below any positive theta and the loop leaves. When
  it leaves with change below theta, the array is between \<open>v_random\<close> and
  \<open>v_random + theta * w\<close>: look at the state where the error relative to \<open>w\<close> is largest.
\<close>

lemma v_random_facts:
  "\<forall>s\<in>set [0..<16]. - 22 \<le> v_random ! s \<and> v_random ! s \<le> 0 \<and>
      (two_corners s \<longrightarrow> v_random ! s = 0) \<and>
      (\<not> two_corners s \<longrightarrow> v_random ! s \<le> - 14 \<and>
         v_random ! move s 0 + v_random ! move s 1 + v_random ! move s 2 + v_random ! move s 3 =
         4 * v_random ! s + 4)"
  unfolding upt_16
  by (simp add: move_def v_random_def two_corners_def)

lemma v_random_range: "s < 16 \<Longrightarrow> - 22 \<le> v_random ! s \<and> v_random ! s \<le> 0"
  using v_random_facts by simp

lemma v_random_terminal: "s < 16 \<Longrightarrow> two_corners s \<Longrightarrow> v_random ! s = 0"
  using v_random_facts by simp

lemma v_random_inner: "s < 16 \<Longrightarrow> \<not> two_corners s \<Longrightarrow> v_random ! s \<le> - 14"
  using v_random_facts by simp

lemma v_random_bellman:
  "s < 16 \<Longrightarrow> \<not> two_corners s \<Longrightarrow>
     v_random ! move s 0 + v_random ! move s 1 + v_random ! move s 2 + v_random ! move s 3 =
     4 * v_random ! s + 4"
  using v_random_facts by simp

lemma near_descends:
  "\<forall>s\<in>set [0..<16]. \<not> two_corners s \<longrightarrow>
     (\<forall>a\<in>set [0..<4]. (\<forall>b\<in>set [0..<4]. v_random ! move s b < v_random ! move s a + 1) \<longrightarrow>
        expected_v ! move s a = expected_v ! s + 1)"
  unfolding upt_16 upt_4
  by (simp add: move_def expected_v_def v_random_def two_corners_def)

lemma backup_uniform:
  assumes s: "s < 16"
  shows "full_backup (replicate 16 (replicate 4 (1 / 4))) (gridworld t) 1 V s =
     (if t s then V ! s
      else - 1 + (V ! move s 0 + V ! move s 1 + V ! move s 2 + V ! move s 3) / 4)"
proof -
  have "replicate 4 (1 / 4 :: real) = [1 / 4, 1 / 4, 1 / 4, 1 / 4]"
    by (simp add: numeral_eq_Suc)
  moreover have "replicate 16 (replicate 4 (1 / 4 :: real)) ! s = replicate 4 (1 / 4)"
    using s by simp
  ultimately have row: "replicate 16 (replicate 4 (1 / 4 :: real)) ! s = [1 / 4, 1 / 4, 1 / 4, 1 / 4]"
    by simp
  have len: "length (replicate 16 (replicate 4 (1 / 4 :: real)) ! s) = 4" using s by simp
  show ?thesis unfolding full_backup_grid [OF s len] row by (simp add: field_simps)
qed

lemma nearD:
  "near M V \<Longrightarrow> s < 16 \<Longrightarrow> v_random ! s \<le> V ! s \<and> V ! s \<le> v_random ! s - M * v_random ! s"
  by (simp add: near_def)

lemma near_mono: "near M V \<Longrightarrow> M \<le> M' \<Longrightarrow> near M' V"
  unfolding near_def
proof (intro conjI allI impI)
  assume a: "length V = 16 \<and> (\<forall>s<16. v_random ! s \<le> V ! s \<and> V ! s \<le> v_random ! s - M * v_random ! s)"
    and le: "M \<le> M'"
  show "length V = 16" using a by simp
  fix s :: nat assume s: "s < 16"
  show "v_random ! s \<le> V ! s" using a s by simp
  have "M' * v_random ! s \<le> M * v_random ! s"
    using le v_random_range [OF s] by (intro mult_right_mono_neg) simp_all
  with a s show "V ! s \<le> v_random ! s - M' * v_random ! s" by fastforce
qed

lemma backup_near:
  assumes W: "near M W" and M: "0 \<le> M" and s: "s < 16"
  shows "v_random ! s \<le> full_backup (replicate 16 (replicate 4 (1 / 4))) (gridworld two_corners) 1 W s"
    and "full_backup (replicate 16 (replicate 4 (1 / 4))) (gridworld two_corners) 1 W s
           \<le> v_random ! s - (21 / 22 * M) * v_random ! s"
proof -
  let ?B = "full_backup (replicate 16 (replicate 4 (1 / 4))) (gridworld two_corners) 1 W s"
  have both: "v_random ! s \<le> ?B \<and> ?B \<le> v_random ! s - (21 / 22 * M) * v_random ! s"
  proof (cases "two_corners s")
    case True
    from nearD [OF W s] v_random_terminal [OF s True] have "W ! s = 0" by simp
    with True v_random_terminal [OF s True] show ?thesis by (simp add: backup_uniform [OF s])
  next
    case False
    have blo: "\<And>a. v_random ! move s a \<le> W ! move s a"
      and bhi: "\<And>a. W ! move s a \<le> v_random ! move s a - M * v_random ! move s a"
      using W move_less [OF s] by (simp_all add: near_def)
    note bell = v_random_bellman [OF s False]
    have B: "?B = - 1 + (W ! move s 0 + W ! move s 1 + W ! move s 2 + W ! move s 3) / 4"
      using False by (simp add: backup_uniform [OF s])
    have lo: "v_random ! s \<le> ?B"
      unfolding B using blo [of 0] blo [of 1] blo [of 2] blo [of 3] bell by argo
    have "W ! move s 0 + W ! move s 1 + W ! move s 2 + W ! move s 3 \<le>
          (v_random ! move s 0 + v_random ! move s 1 + v_random ! move s 2 + v_random ! move s 3)
          - M * (v_random ! move s 0 + v_random ! move s 1 + v_random ! move s 2 + v_random ! move s 3)"
      using bhi [of 0] bhi [of 1] bhi [of 2] bhi [of 3] by (simp add: algebra_simps)
    then have up1: "?B \<le> v_random ! s - M * (v_random ! s + 1)"
      unfolding B bell by (simp add: field_simps)
    have "0 \<le> M * (v_random ! s + 22)"
      using M v_random_range [OF s] by (intro mult_nonneg_nonneg) simp_all
    then have "- M * (v_random ! s + 1) \<le> - (21 / 22 * M) * v_random ! s"
      by (simp add: algebra_simps)
    with up1 have "?B \<le> v_random ! s - (21 / 22 * M) * v_random ! s" by simp
    with lo show ?thesis by simp
  qed
  from both show "v_random ! s \<le> ?B" and "?B \<le> v_random ! s - (21 / 22 * M) * v_random ! s"
    by simp_all
qed

lemma update_near:
  assumes W: "near M W" and M: "0 \<le> M" and s: "s < 16"
  shows "near M (W[s := full_backup (replicate 16 (replicate 4 (1 / 4))) (gridworld two_corners) 1 W s])"
proof -
  let ?B = "full_backup (replicate 16 (replicate 4 (1 / 4))) (gridworld two_corners) 1 W s"
  have "0 \<le> M * (- v_random ! s)"
    using M v_random_range [OF s] by (intro mult_nonneg_nonneg) simp_all
  then have "v_random ! s - (21 / 22 * M) * v_random ! s \<le> v_random ! s - M * v_random ! s"
    by (simp add: algebra_simps)
  with backup_near [OF W M s]
  have "v_random ! s \<le> ?B \<and> ?B \<le> v_random ! s - M * v_random ! s" by simp
  with W s show ?thesis by (auto simp: near_def nth_list_update)
qed

lemma sweep_near_same:
  assumes W: "near M W" and M: "0 \<le> M"
  shows "near M (inplace_sweep (replicate 16 (replicate 4 (1 / 4))) (gridworld two_corners) 1 W [0..<16])"
proof (rule inplace_sweep_invariant [where Q = "near M", OF W])
  fix W' s assume "near M W'" and "s \<in> set [0..<16]"
  then show "near M (W'[s := full_backup (replicate 16 (replicate 4 (1 / 4))) (gridworld two_corners) 1 W' s])"
    using update_near [OF _ M] by simp
qed

lemma mixed_near:
  assumes "near M V'" "near M W"
  shows "near M (take s V' @ drop s W)"
  unfolding near_def
proof (intro conjI allI impI)
  from assms have len: "length V' = 16" "length W = 16" by (simp_all add: near_def)
  then show "length (take s V' @ drop s W) = 16" by simp
  fix u :: nat assume u: "u < 16"
  have eq: "(take s V' @ drop s W) ! u = (if u < s then V' ! u else W ! u)"
    using len u by (intro mixed_nth [where n = 16]) simp_all
  from assms u show "v_random ! u \<le> (take s V' @ drop s W) ! u"
    and "(take s V' @ drop s W) ! u \<le> v_random ! u - M * v_random ! u"
    unfolding eq by (simp_all add: near_def)
qed

lemma sweep_near:
  assumes W: "near M W" and M: "0 \<le> M"
  shows "near (21 / 22 * M)
           (inplace_sweep (replicate 16 (replicate 4 (1 / 4))) (gridworld two_corners) 1 W [0..<16])"
proof -
  let ?U = "replicate 16 (replicate 4 (1 / 4 :: real))"
  let ?V' = "inplace_sweep ?U (gridworld two_corners) 1 W [0..<16]"
  from W have len: "length W = 16" by (simp add: near_def)
  note V' = sweep_near_same [OF W M]
  show ?thesis
    unfolding near_def
  proof (intro conjI allI impI)
    show "length ?V' = 16" using len by simp
    fix s :: nat assume s: "s < 16"
    have nth: "?V' ! s = full_backup ?U (gridworld two_corners) 1 (take s ?V' @ drop s W) s"
      using len s by (rule inplace_sweep_nth)
    from backup_near [OF mixed_near [OF V' W, of s] M s]
    show "v_random ! s \<le> ?V' ! s" and "?V' ! s \<le> v_random ! s - 21 / 22 * M * v_random ! s"
      unfolding nth by simp_all
  qed
qed

lemma near_zeros: "near 1 (replicate 16 0)"
  unfolding near_def using v_random_range by simp

lemma sweeps_near:
  "near ((21 / 22) ^ k)
     (((\<lambda>W. inplace_sweep (replicate 16 (replicate 4 (1 / 4))) (gridworld two_corners) 1 W [0..<16]) ^^ k)
        (replicate 16 0))"
proof (induction k)
  case 0
  show ?case using near_zeros by simp
next
  case (Suc k)
  have "near (21 / 22 * (21 / 22) ^ k)
     (inplace_sweep (replicate 16 (replicate 4 (1 / 4))) (gridworld two_corners) 1
        (((\<lambda>W. inplace_sweep (replicate 16 (replicate 4 (1 / 4))) (gridworld two_corners) 1 W [0..<16]) ^^ k)
           (replicate 16 0)) [0..<16])"
    using Suc.IH by (rule sweep_near) simp
  then show ?case by simp
qed

lemma near_change:
  assumes V: "near M V" and V': "near M V'" and M: "0 \<le> M"
  shows "max_change V' V \<le> 22 * M"
proof -
  from V V' have len: "length V' = 16" "length V = 16" by (simp_all add: near_def)
  have "Max (insert 0 ((\<lambda>s. \<bar>V' ! s - V ! s\<bar>) ` {..<16})) \<le> 22 * M"
  proof (subst Max_le_iff)
    show "finite (insert 0 ((\<lambda>s. \<bar>V' ! s - V ! s\<bar>) ` {..<16::nat}))" by simp
    show "insert 0 ((\<lambda>s. \<bar>V' ! s - V ! s\<bar>) ` {..<16::nat}) \<noteq> {}" by simp
    show "\<forall>a\<in>insert 0 ((\<lambda>s. \<bar>V' ! s - V ! s\<bar>) ` {..<16::nat}). a \<le> 22 * M"
    proof
      fix a assume "a \<in> insert 0 ((\<lambda>s. \<bar>V' ! s - V ! s\<bar>) ` {..<16::nat})"
      then consider "a = 0" | s where "s < 16" "a = \<bar>V' ! s - V ! s\<bar>" by auto
      then show "a \<le> 22 * M"
      proof cases
        case 1
        with M show ?thesis by simp
      next
        case 2
        have "0 \<le> M * (v_random ! s + 22)"
          using M v_random_range [OF 2(1)] by (intro mult_nonneg_nonneg) simp_all
        then have "- (M * v_random ! s) \<le> 22 * M" by (simp add: algebra_simps)
        with nearD [OF V 2(1)] nearD [OF V' 2(1)] show ?thesis unfolding 2(2) by linarith
      qed
    qed
  qed
  then show ?thesis unfolding max_change_Max [OF len] .
qed

lemma uniform_terminates:
  assumes th: "0 < th"
  shows "\<exists>V'. inplace_loop (replicate 16 (replicate 4 (1 / 4))) (gridworld two_corners) 1 th
                 (replicate 16 0) = Some V'"
proof -
  let ?T = "\<lambda>W. inplace_sweep (replicate 16 (replicate 4 (1 / 4))) (gridworld two_corners) 1 W [0..<16]"
  from th have "0 < th / 22" by simp
  from real_arch_pow_inv [OF this, of "21 / 22"]
  obtain k where k: "(21 / 22 :: real) ^ k < th / 22" by auto
  have n0: "near ((21 / 22) ^ k) ((?T ^^ k) (replicate 16 0))" by (rule sweeps_near)
  have "near ((21 / 22) ^ Suc k) ((?T ^^ Suc k) (replicate 16 0))" by (rule sweeps_near)
  then have n1: "near ((21 / 22) ^ k) ((?T ^^ Suc k) (replicate 16 0))"
    by (rule near_mono) (simp add: mult_le_cancel_right1)
  have "max_change ((?T ^^ Suc k) (replicate 16 0)) ((?T ^^ k) (replicate 16 0)) \<le> 22 * (21 / 22) ^ k"
    using n0 n1 by (rule near_change) simp
  also have "\<dots> < th" using k by simp
  finally have "max_change ((?T ^^ Suc k) (replicate 16 0)) ((?T ^^ k) (replicate 16 0)) < th" .
  then have "max_change
       (((\<lambda>W. inplace_sweep (replicate 16 (replicate 4 (1 / 4))) (gridworld two_corners) 1 W
                 [0..<nS (gridworld two_corners)]) ^^ Suc k) (replicate 16 0))
       (((\<lambda>W. inplace_sweep (replicate 16 (replicate 4 (1 / 4))) (gridworld two_corners) 1 W
                 [0..<nS (gridworld two_corners)]) ^^ k) (replicate 16 0)) < th"
    by simp
  then show ?thesis by (rule inplace_loop_terminates)
qed

lemma finite_argmax:
  fixes f :: "'a \<Rightarrow> real"
  assumes "finite S" "S \<noteq> {}"
  obtains x where "x \<in> S" and "\<forall>y\<in>S. f y \<le> f x"
proof -
  from assms have "Max (f ` S) \<in> f ` S" by (intro Max_in) simp_all
  then obtain x where x: "x \<in> S" "f x = Max (f ` S)" by auto
  have "\<forall>y\<in>S. f y \<le> f x" unfolding x(2) using assms(1) by (auto intro: Max_ge)
  with x(1) show ?thesis by (rule that)
qed

lemma uniform_accuracy:
  assumes th: "0 < th"
    and run: "inplace_loop (replicate 16 (replicate 4 (1 / 4))) (gridworld two_corners) 1 th
                 (replicate 16 0) = Some V'"
  shows "near th V'"
proof -
  let ?U = "replicate 16 (replicate 4 (1 / 4 :: real))"
  let ?G = "gridworld two_corners"
  have "\<exists>W. near 1 W \<and> V' = inplace_sweep ?U ?G 1 W [0..<nS ?G] \<and> max_change V' W < th"
  proof (rule inplace_loop_last_sweep [where Q = "near 1", OF run near_zeros])
    fix W assume "near 1 W"
    then show "near 1 (inplace_sweep ?U ?G 1 W [0..<nS ?G])"
      using sweep_near_same [of 1 W] by simp
  qed
  then obtain W where W: "near 1 W" and V': "V' = inplace_sweep ?U ?G 1 W [0..<16]"
    and mc: "max_change V' W < th" by auto
  from W have lenW: "length W = 16" by (simp add: near_def)
  have nV: "near 1 V'" unfolding V' using W by (rule sweep_near_same) simp
  then have lenV: "length V' = 16" by (simp add: near_def)
  have close: "\<bar>V' ! u - W ! u\<bar> < th" if "u < 16" for u
    using lenV lenW mc that by (rule max_change_bound)
  define e where "e u = V' ! u - v_random ! u" for u
  have e0: "0 \<le> e u" if "u < 16" for u
    using nearD [OF nV that] by (simp add: e_def)
  have step: "4 * e s \<le> 4 * th + (e (move s 0) + e (move s 1) + e (move s 2) + e (move s 3))"
    if s: "s < 16" and nt: "\<not> two_corners s" for s
  proof -
    let ?M = "take s V' @ drop s W"
    have nth: "V' ! s = - 1 + (?M ! move s 0 + ?M ! move s 1 + ?M ! move s 2 + ?M ! move s 3) / 4"
      unfolding V' using inplace_sweep_nth [OF lenW s, of ?U ?G 1] nt
      by (simp add: backup_uniform [OF s])
    have Mm: "?M ! move s a \<le> V' ! move s a + th" for a
    proof -
      have m: "move s a < 16" by (rule move_less [OF s])
      have "?M ! move s a = (if move s a < s then V' ! move s a else W ! move s a)"
        using lenV lenW m by (rule mixed_nth)
      with close [OF m] th show ?thesis by (simp split: if_splits)
    qed
    from Mm [of 0] Mm [of 1] Mm [of 2] Mm [of 3] v_random_bellman [OF s nt]
    show ?thesis unfolding e_def nth by argo
  qed
  define w where "w u = - v_random ! u" for u
  let ?N = "{s. s < 16 \<and> \<not> two_corners s}"
  have "finite ?N" by simp
  moreover have "?N \<noteq> {}"
  proof -
    have "(1::nat) \<in> ?N" by (simp add: two_corners_def)
    then show ?thesis by blast
  qed
  ultimately obtain x where x: "x \<in> ?N" and mx: "\<forall>y\<in>?N. e y / w y \<le> e x / w x"
    by (rule finite_argmax)
  define rho where "rho = e x / w x"
  from x have xs: "x < 16" and xn: "\<not> two_corners x" by simp_all
  have wpos: "0 < w y" if "y < 16" "\<not> two_corners y" for y
    using v_random_inner [OF that] by (simp add: w_def)
  have bound: "e u \<le> rho * w u" if u: "u < 16" for u
  proof (cases "two_corners u")
    case True
    from nearD [OF nV u] v_random_terminal [OF u True] show ?thesis by (simp add: e_def w_def)
  next
    case False
    with u mx have "e u / w u \<le> rho" by (simp add: rho_def)
    then show ?thesis using wpos [OF u False] by (simp only: pos_divide_le_eq)
  qed
  have ex: "e x = rho * w x"
    unfolding rho_def using wpos [OF xs xn] by simp
  have b: "e (move x a) \<le> rho * w (move x a)" for a
    by (rule bound [OF move_less [OF xs]])
  have ws: "w (move x 0) + w (move x 1) + w (move x 2) + w (move x 3) = 4 * w x - 4"
    using v_random_bellman [OF xs xn] by (simp add: w_def)
  have "e (move x 0) + e (move x 1) + e (move x 2) + e (move x 3) \<le>
        rho * (w (move x 0) + w (move x 1) + w (move x 2) + w (move x 3))"
    using b [of 0] b [of 1] b [of 2] b [of 3] by (simp add: algebra_simps)
  also have "\<dots> = rho * (4 * w x - 4)" by (simp only: ws)
  finally have "4 * e x \<le> 4 * th + rho * (4 * w x - 4)"
    using step [OF xs xn] by simp
  then have "rho \<le> th" unfolding ex by (simp add: algebra_simps)
  show ?thesis
    unfolding near_def
  proof (intro conjI allI impI)
    show "length V' = 16" by (rule lenV)
    fix s :: nat assume s: "s < 16"
    from nearD [OF nV s] show "v_random ! s \<le> V' ! s" by simp
    have "rho * w s \<le> th * w s"
      using \<open>rho \<le> th\<close> v_random_range [OF s] by (intro mult_right_mono) (simp_all add: w_def)
    with bound [OF s] show "V' ! s \<le> v_random ! s - th * v_random ! s"
      by (simp add: e_def w_def)
  qed
qed

subsection \<open>Two terminal corners: the rounds of the outer loop\<close>

text \<open>
  Round one evaluates the uniform policy; the array it gets is close enough to \<open>v_random\<close>
  for every greedy row to step towards a corner, and the policy is not stable (state 1 moves
  left, action 3, where the uniform row has argmax 0). Every later round evaluates such a
  policy to \<open>expected_v\<close> and writes the greedy rows for \<open>expected_v\<close>; the second of them at
  the latest finds the rows it started with and returns.
\<close>

lemma uniform_evaluation:
  obtains fr where
    "policy_eval (replicate 16 (replicate 4 (1 / 4))) (gridworld two_corners) 1 (1 / 100000) = Some (Inr fr)"
    and "near (1 / 100000) (f_V fr)"
proof -
  let ?U = "replicate 16 (replicate 4 (1 / 4 :: real))"
  let ?G = "gridworld two_corners"
  have th: "0 < (1 / 100000 :: real)" by simp
  from uniform_terminates [OF th]
  obtain V' where run: "inplace_loop ?U ?G 1 (1 / 100000) (replicate 16 0) = Some V'" by auto
  from uniform_accuracy [OF th run] have nr: "near (1 / 100000) V'" .
  have sh: "policy_shape ?U ?G" by (simp add: policy_shape_def)
  from run have "inplace_evaluate ?U ?G 1 (1 / 100000) = Some V'" by (simp add: inplace_evaluate_def)
  from inplace_policy_eval [OF well_formed_grid sh this] nr that show ?thesis by blast
qed

lemma round_returns:
  assumes ev: "policy_eval p (gridworld t) 1 (1 / 100000) = Some (Inr fr)"
    and len: "length p = 16" and rows: "\<forall>s<16. p ! s \<noteq> []"
  shows "\<exists>st. improve_round g p (gridworld t) = Some (Inr st)"
proof -
  let ?st = "\<lparr>g_policy = f_policy fr, g_env = f_env fr, g_V = f_V fr, g_policy_stable = True\<rparr>"
  from policy_eval_frame [OF ev] have fr: "f_policy fr = p" "f_env fr = gridworld t"
    "length (f_V fr) = 16" by simp_all
  have "\<exists>st'. improve_states g ?st [0..<16] = Inr st'"
    using fr len rows well_formed_grid by (intro improve_states_total) simp_all
  then show ?thesis using ev fr by (simp add: improve_round_def)
qed

lemma round_rows:
  assumes round: "improve_round 1 p (gridworld t) = Some (Inr st)" and s: "s < 16"
  obtains a where "a < 4" and "g_policy st ! s = unit_row a"
    and "\<not> t s \<Longrightarrow> \<forall>b<4. g_V st ! move s b \<le> g_V st ! move s a"
proof -
  from improve_round_effect [OF round]
  obtain fr where ev: "policy_eval p (gridworld t) 1 (1 / 100000) = Some (Inr fr)"
    and V: "g_V st = f_V fr"
    and rows: "\<forall>s<nS (gridworld t). s < length p \<and> greedy_row (gridworld t) 1 (f_V fr) s (g_policy st ! s)"
    by blast
  from policy_eval_frame [OF ev] have len: "length (g_V st) = 16" using V by simp
  from rows s V have "greedy_row (gridworld t) 1 (g_V st) s (g_policy st ! s)" by simp
  from greedy_row_choice [OF len s this] that show ?thesis by blast
qed

lemma round_length:
  assumes "improve_round g p e = Some (Inr st)"
  shows "length (g_policy st) = length p" and "g_env st = e"
  using improve_round_effect [OF assms] by blast+

lemma near_round_descending:
  assumes round: "improve_round 1 p (gridworld two_corners) = Some (Inr st)"
    and len: "length p = 16" and nr: "near (1 / 100000) (g_V st)"
  shows "descending (g_policy st)"
  unfolding descending_def
proof (intro conjI allI impI)
  show "length (g_policy st) = 16" using round_length(1) [OF round] len by simp
  fix s :: nat assume s: "s < 16"
  from round_rows [OF round s] obtain a where a: "a < 4" and row: "g_policy st ! s = unit_row a"
    and best: "\<not> two_corners s \<Longrightarrow> \<forall>b<4. g_V st ! move s b \<le> g_V st ! move s a" by blast
  have "expected_v ! move s a = expected_v ! s + 1" if nt: "\<not> two_corners s"
  proof -
    have "\<forall>b\<in>set [0..<4]. v_random ! move s b < v_random ! move s a + 1"
    proof
      fix b assume "b \<in> set [0..<4]"
      then have b: "b < 4" by simp
      have mb: "move s b < 16" and ma: "move s a < 16" by (rule move_less [OF s])+
      from best [OF nt] b have "g_V st ! move s b \<le> g_V st ! move s a" by simp
      moreover from nearD [OF nr mb] have "v_random ! move s b \<le> g_V st ! move s b" by simp
      moreover from nearD [OF nr ma] v_random_range [OF ma]
      have "g_V st ! move s a < v_random ! move s a + 1" by simp
      ultimately show "v_random ! move s b < v_random ! move s a + 1" by simp
    qed
    with near_descends s nt a show ?thesis by simp
  qed
  with a row show "\<exists>a<4. g_policy st ! s = unit_row a \<and>
      (\<not> two_corners s \<longrightarrow> expected_v ! move s a = expected_v ! s + 1)" by blast
qed

lemma exact_round_descending:
  assumes round: "improve_round 1 p (gridworld two_corners) = Some (Inr st)"
    and len: "length p = 16" and V: "g_V st = expected_v"
  shows "descending (g_policy st)"
  unfolding descending_def
proof (intro conjI allI impI)
  show "length (g_policy st) = 16" using round_length(1) [OF round] len by simp
  fix s :: nat assume s: "s < 16"
  from round_rows [OF round s] obtain a where a: "a < 4" and row: "g_policy st ! s = unit_row a"
    and best: "\<not> two_corners s \<Longrightarrow> \<forall>b<4. g_V st ! move s b \<le> g_V st ! move s a" by blast
  have "expected_v ! move s a = expected_v ! s + 1" if nt: "\<not> two_corners s"
  proof -
    from best [OF nt] have "\<forall>b\<in>set [0..<4]. expected_v ! move s b \<le> expected_v ! move s a"
      unfolding V by simp
    with greedy_descends s nt a show ?thesis by simp
  qed
  with a row show "\<exists>a<4. g_policy st ! s = unit_row a \<and>
      (\<not> two_corners s \<longrightarrow> expected_v ! move s a = expected_v ! s + 1)" by blast
qed

lemma descending_round:
  assumes p: "descending p"
  obtains st where "improve_round 1 p (gridworld two_corners) = Some (Inr st)"
    and "g_V st = expected_v" and "descending (g_policy st)"
proof -
  from p have len: "length p = 16" by (simp add: descending_def)
  have rows: "\<forall>s<16. p ! s \<noteq> []"
  proof (intro allI impI)
    fix s :: nat assume "s < 16"
    with p obtain a where "p ! s = unit_row a" unfolding descending_def by blast
    then show "p ! s \<noteq> []" by (simp add: unit_row_def)
  qed
  from descending_evaluation [OF p]
  obtain fr where ev: "policy_eval p (gridworld two_corners) 1 (1 / 100000) = Some (Inr fr)"
    and V: "f_V fr = expected_v" by blast
  from round_returns [OF ev len rows]
  obtain st where round: "improve_round 1 p (gridworld two_corners) = Some (Inr st)" by blast
  from improve_round_effect [OF round] ev have "g_V st = f_V fr" by auto
  with V have gV: "g_V st = expected_v" by simp
  from round gV exact_round_descending [OF round len gV] show ?thesis by (rule that)
qed

lemma greedy_rows_unique:
  assumes "greedy_row e g V s row" "greedy_row e g V s row'"
  shows "row = row'"
  using assms unfolding greedy_row_def by auto

lemma descending_loop:
  assumes p: "descending p"
  obtains st where "improvement_loop 1 p (gridworld two_corners) = Some (Inr st)"
    and "g_V st = expected_v"
proof -
  let ?G = "gridworld two_corners"
  from descending_round [OF p]
  obtain st2 where r2: "improve_round 1 p ?G = Some (Inr st2)"
    and V2: "g_V st2 = expected_v" and d2: "descending (g_policy st2)" by blast
  from round_length [OF r2] have env2: "g_env st2 = ?G" by simp
  show ?thesis
  proof (cases "g_policy_stable st2")
    case True
    have "improvement_loop 1 p ?G = Some (Inr st2)"
      by (subst improvement_loop.simps) (simp add: r2 True)
    then show ?thesis using V2 by (rule that)
  next
    case False
    let ?q = "g_policy st2"
    from descending_round [OF d2]
    obtain st3 where r3: "improve_round 1 ?q ?G = Some (Inr st3)"
      and V3: "g_V st3 = expected_v" by blast
    from improve_round_effect [OF r2]
    obtain fr2 :: eval_frame where g2: "g_V st2 = f_V fr2"
      and rows2: "\<forall>s<nS ?G. s < length p \<and> greedy_row ?G 1 (f_V fr2) s (g_policy st2 ! s)"
      by blast
    have f2: "f_V fr2 = expected_v" using g2 V2 by (rule trans [OF sym])
    have rows2': "greedy_row ?G 1 expected_v s (?q ! s)" if "s < 16" for s
      using rows2 that unfolding f2 by simp
    from improve_round_effect [OF r3]
    obtain fr3 :: eval_frame where g3: "g_V st3 = f_V fr3"
      and rows3: "\<forall>s<nS ?G. s < length ?q \<and> greedy_row ?G 1 (f_V fr3) s (g_policy st3 ! s)"
      and stable3: "g_policy_stable st3 \<longleftrightarrow>
          (\<forall>s<nS ?G. np_argmax (?q ! s) = np_argmax (g_policy st3 ! s))"
      by blast
    have f3: "f_V fr3 = expected_v" using g3 V3 by (rule trans [OF sym])
    have rows3': "greedy_row ?G 1 expected_v s (g_policy st3 ! s)" if "s < 16" for s
      using rows3 that unfolding f3 by simp
    have same: "?q ! s = g_policy st3 ! s" if "s < 16" for s
      using rows2' [OF that] rows3' [OF that] by (rule greedy_rows_unique)
    have s3: "g_policy_stable st3" unfolding stable3 using same by simp
    have "improvement_loop 1 p ?G = improvement_loop 1 ?q ?G"
      by (subst improvement_loop.simps) (simp add: r2 False env2)
    also have "\<dots> = Some (Inr st3)"
      by (subst improvement_loop.simps) (simp add: r3 s3)
    finally show ?thesis using V3 by (rule that)
  qed
qed

lemma only_left_from_state_1:
  "\<forall>a\<in>set [0..<4]. expected_v ! move 1 a = expected_v ! 1 + 1 \<longrightarrow> a = 3"
  unfolding upt_4 by (simp add: move_def expected_v_def)

lemma solve_two_corners:
  obtains st where "policy_improvement (gridworld two_corners) f 1 = Some (Inr st)"
    and "g_V st = expected_v"
proof -
  let ?G = "gridworld two_corners"
  let ?U = "replicate 16 (replicate 4 (1 / 4 :: real))"
  from uniform_evaluation
  obtain fr where ev: "policy_eval ?U ?G 1 (1 / 100000) = Some (Inr fr)"
    and nr: "near (1 / 100000) (f_V fr)" by blast
  have "\<exists>st. improve_round 1 ?U ?G = Some (Inr st)"
    using ev by (rule round_returns) simp_all
  then obtain st1 where r1: "improve_round 1 ?U ?G = Some (Inr st1)" ..
  from improve_round_effect [OF r1]
  obtain fr1 where ev1: "policy_eval ?U ?G 1 (1 / 100000) = Some (Inr fr1)"
    and g1: "g_V st1 = f_V fr1"
    and stable1: "g_policy_stable st1 \<longleftrightarrow>
          (\<forall>s<nS ?G. np_argmax (?U ! s) = np_argmax (g_policy st1 ! s))"
    by blast
  from ev ev1 have "fr1 = fr" by simp
  with nr g1 have nr1: "near (1 / 100000) (g_V st1)" by simp
  have d1: "descending (g_policy st1)"
    using r1 _ nr1 by (rule near_round_descending) simp
  then have "\<exists>a<4. g_policy st1 ! 1 = unit_row a \<and>
        (\<not> two_corners 1 \<longrightarrow> expected_v ! move 1 a = expected_v ! 1 + 1)"
    unfolding descending_def by simp
  then obtain a where a: "a < 4" and row: "g_policy st1 ! 1 = unit_row a"
    and dn: "expected_v ! move 1 a = expected_v ! 1 + 1"
    by (auto simp: two_corners_def)
  from only_left_from_state_1 a dn have "a = 3" by simp
  with row have "np_argmax (g_policy st1 ! 1) = Inr 3"
    using np_argmax_one_hot [of 3 4] by (simp add: unit_row_def)
  moreover have "np_argmax (?U ! 1) = Inr 0"
  proof -
    have "?U ! 1 = replicate 4 (1 / 4)" by simp
    also have "\<dots> = [1 / 4, 1 / 4, 1 / 4, 1 / 4]" by (simp add: numeral_eq_Suc)
    finally show ?thesis by (simp add: np_argmax_def)
  qed
  ultimately have "np_argmax (?U ! 1) \<noteq> np_argmax (g_policy st1 ! 1)" by simp
  moreover have "(1::nat) < nS ?G" by simp
  ultimately have "\<not> (\<forall>s<nS ?G. np_argmax (?U ! s) = np_argmax (g_policy st1 ! s))" by blast
  with stable1 have ns: "\<not> g_policy_stable st1" by simp
  from round_length [OF r1] have env1: "g_env st1 = ?G" by simp
  from descending_loop [OF d1]
  obtain st where run: "improvement_loop 1 (g_policy st1) ?G = Some (Inr st)"
    and V: "g_V st = expected_v" by blast
  have "improvement_loop 1 ?U ?G = improvement_loop 1 (g_policy st1) ?G"
    by (subst improvement_loop.simps) (simp add: r1 ns env1)
  with run have "policy_improvement ?G f 1 = Some (Inr st)"
    by (simp add: policy_improvement_def)
  with V show ?thesis using that by blast
qed

text \<open>
  Claim C6, amended. On the 4x4 grid whose two opposite corners 0 and 15 are terminal, with
  reward \<open>-1\<close> per move and discount factor 1, the outer loop returns, and the value array it
  returns is exactly \<open>expected_v\<close>, so it passes the comparison to two decimals.
\<close>

theorem two_terminal_corner_grid_solved:
  "map_option (map_sum id snd) (returned (policy_improvement (gridworld two_corners) policy_eval 1)) =
     Some (Inr expected_v) \<and>
   solve_matches (returned (policy_improvement (gridworld two_corners) policy_eval 1)) expected_v"
proof -
  from solve_two_corners [of policy_eval]
  obtain st where run: "policy_improvement (gridworld two_corners) policy_eval 1 = Some (Inr st)"
    and V: "g_V st = expected_v" by blast
  have "almost_equal expected_v expected_v"
    by (simp add: almost_equal_def close_enough_def list_all2_same)
  with run V show ?thesis
    by (simp add: returned_def solve_matches_def)
qed

end
